theory Spec2Isabelle
  imports Main "HOL-Library.Char_ord" "HOL-Library.Monad_Syntax"
begin

section \<open>Go values used by expando\<close>

text \<open>
  A Go \<^verbatim>\<open>string\<close> is a sequence of bytes: \<^typ>\<open>string\<close>, a list of 8-bit characters.
  A Go \<^verbatim>\<open>int\<close> index is an \<^typ>\<open>int\<close>; string lengths are far below \<open>2 ^ 63\<close>, so no
  index computation of the package wraps around.

  A run-time panic (an index or slice bound out of range, a method call on a nil
  interface, a provider that panics) is the value \<open>None\<close> of the option monad;
  \<open>Some r\<close> means that the call returned \<open>r\<close>.
\<close>

definition go_index :: "string \<Rightarrow> int \<Rightarrow> char option" where
  \<comment> \<open>\<^verbatim>\<open>s[i]\<close>\<close>
  "go_index s i = (if 0 \<le> i \<and> i < int (length s) then Some (s ! nat i) else None)"

definition go_slice :: "string \<Rightarrow> int \<Rightarrow> int \<Rightarrow> string option" where
  \<comment> \<open>\<^verbatim>\<open>s[lo:hi]\<close>\<close>
  "go_slice s lo hi =
     (if 0 \<le> lo \<and> lo \<le> hi \<and> hi \<le> int (length s)
      then Some (take (nat (hi - lo)) (drop (nat lo) s)) else None)"

text \<open>
  A \<^verbatim>\<open>[]byte\<close> is either the nil slice or a slice with contents. Capacity is not
  observable in what \<^verbatim>\<open>Expand\<close> returns and is left out.
\<close>

datatype slice = NilSlice | Slice string

fun contents :: "slice \<Rightarrow> string" where
  "contents NilSlice = []"
| "contents (Slice b) = b"

fun go_append :: "slice \<Rightarrow> string \<Rightarrow> slice" where
  \<comment> \<open>\<^verbatim>\<open>append(buf, s...)\<close>: appending nothing to the nil slice leaves it nil\<close>
  "go_append NilSlice s = (if s = [] then NilSlice else Slice s)"
| "go_append (Slice b) s = Slice (b @ s)"

section \<open>Errors\<close>

datatype cause =
  errInvalidCharacter
| errInvalidStartingCharacter
| errUnterminated
| errEmptyString
| errInvalidEscape

record invalidSyntaxErr =
  position :: int
  "value" :: string
  err :: cause

section \<open>Providers\<close>

text \<open>
  A value of the interface type \<^verbatim>\<open>Environment\<close> is either nil or an implementation.
  A call of \<^verbatim>\<open>LookupEnv\<close> on the nil interface panics; the method of an
  implementation either returns a value and the found flag, or panics itself
  (\<open>None\<close>), as the call of a nil \<^verbatim>\<open>envFunc\<close> does.
\<close>

datatype Environment = NilEnvironment | Provider "string \<Rightarrow> (string \<times> bool) option"

fun LookupEnv :: "Environment \<Rightarrow> string \<Rightarrow> (string \<times> bool) option" where
  "LookupEnv NilEnvironment key = None"
| "LookupEnv (Provider lookup) key = lookup key"

definition MapEnvironment :: "(string \<rightharpoonup> string) \<Rightarrow> Environment" where
  "MapEnvironment m =
     Provider (\<lambda>key. Some (case m key of Some val \<Rightarrow> (val, True) | None \<Rightarrow> ([], False)))"

definition envFunc :: "(string \<Rightarrow> (string \<times> bool) option) option \<Rightarrow> Environment" where
  \<comment> \<open>\<open>None\<close> is the nil function value\<close>
  "envFunc fn = Provider (\<lambda>key. case fn of None \<Rightarrow> None | Some f \<Rightarrow> f key)"

section \<open>Name grammar\<close>

definition validNameFirstChar :: "char \<Rightarrow> bool" where
  "validNameFirstChar c \<longleftrightarrow>
     (CHR ''a'' \<le> c \<and> c \<le> CHR ''z'') \<or> (CHR ''A'' \<le> c \<and> c \<le> CHR ''Z'') \<or> c = CHR ''_''"

definition validNameChar :: "char \<Rightarrow> bool" where
  "validNameChar c \<longleftrightarrow> validNameFirstChar c \<or> (CHR ''0'' \<le> c \<and> c \<le> CHR ''9'')"

section \<open>readVarName\<close>

text \<open>
  The \<^verbatim>\<open>for\<close> loop of \<^verbatim>\<open>readVarName\<close>, started at index \<open>i\<close>, together with the
  \<^verbatim>\<open>return\<close> that follows it. A result is \<open>(name, n, err)\<close> with \<open>err = None\<close> for
  Go's \<^verbatim>\<open>nil\<close> error.
\<close>

function readVarName_loop :: "string \<Rightarrow> int \<Rightarrow> (string \<times> int \<times> cause option) option" where
  "readVarName_loop data i =
     (if i < int (length data) then
        do {
          c \<leftarrow> go_index data i;
          if c = CHR ''}'' \<or> c = CHR ''|'' then
            do { name \<leftarrow> go_slice data 0 i; Some (name, i + 1, None) }
          else if \<not> validNameChar c then Some ([], i, Some errInvalidCharacter)
          else readVarName_loop data (i + 1)
        }
      else Some ([], int (length data), Some errUnterminated))"
  by pat_completeness auto
termination
  by (relation "measure (\<lambda>(data, i). nat (int (length data) - i))") auto

definition readVarName :: "string \<Rightarrow> (string \<times> int \<times> cause option) option" where
  "readVarName data =
     (if data = [] then Some ([], 0, Some errUnterminated)
      else do {
        c \<leftarrow> go_index data 0;
        if c = CHR ''}'' \<or> c = CHR ''|'' then Some ([], 0, Some errEmptyString)
        else if \<not> validNameFirstChar c then Some ([], 0, Some errInvalidStartingCharacter)
        else readVarName_loop data 1
      })"

section \<open>readDefaultValue\<close>

abbreviation backslash :: char where
  "backslash \<equiv> CHR 0x5C"

text \<open>
  The first loop looks for an escape or a terminator. It either returns from the
  function (\<open>Inl\<close>) or leaves the loop with the index it reached (\<open>Inr\<close>): at the end
  of the data, or by \<^verbatim>\<open>break\<close> once \<^verbatim>\<open>hasEscape\<close> is set.
\<close>

function readDefaultValue_scan ::
  "string \<Rightarrow> int \<Rightarrow> bool \<Rightarrow> ((string \<times> int \<times> cause option) + int) option" where
  "readDefaultValue_scan data i hasEscape =
     (if i < int (length data) then
        do {
          c \<leftarrow> go_index data i;
          if c = CHR ''}'' then
            do { v \<leftarrow> go_slice data 0 i; Some (Inl (v, i + 1, None)) }
          else if c = backslash \<or> hasEscape then Some (Inr i)
          else readDefaultValue_scan data (i + 1) hasEscape
        }
      else Some (Inr i))"
  by pat_completeness auto
termination
  by (relation "measure (\<lambda>(data, i, hasEscape). nat (int (length data) - i))") auto

text \<open>
  The second loop (label \<^verbatim>\<open>iter\<close>) builds the un-escaped value in \<open>buf\<close>. It either
  returns the invalid-escape error (\<open>Inl\<close>) or leaves the loop with \<open>i\<close>, \<open>buf\<close> and
  \<^verbatim>\<open>foundClose\<close> (\<open>Inr\<close>).
\<close>

function readDefaultValue_iter ::
  "string \<Rightarrow> int \<Rightarrow> string \<Rightarrow> bool \<Rightarrow>
     ((string \<times> int \<times> cause option) + (int \<times> string \<times> bool)) option" where
  "readDefaultValue_iter data i buf escaped =
     (if i < int (length data) then
        do {
          c \<leftarrow> go_index data i;
          if c = backslash then
            readDefaultValue_iter data (i + 1) (if escaped then buf @ [c] else buf) (\<not> escaped)
          else if c = CHR ''}'' \<and> \<not> escaped then Some (Inr (i, buf, True))
          else if escaped \<and> c \<noteq> CHR ''}'' then Some (Inl ([], i, Some errInvalidEscape))
          else readDefaultValue_iter data (i + 1) (buf @ [c]) False
        }
      else Some (Inr (i, buf, False)))"
  by pat_completeness auto
termination
  by (relation "measure (\<lambda>(data, i, buf, escaped). nat (int (length data) - i))") auto

definition readDefaultValue :: "string \<Rightarrow> (string \<times> int \<times> cause option) option" where
  "readDefaultValue data =
     do {
       r \<leftarrow> readDefaultValue_scan data 0 False;
       case r of
         Inl ret \<Rightarrow> Some ret
       | Inr i \<Rightarrow>
           if i = int (length data) then Some ([], i, Some errUnterminated)
           else do {
             buf \<leftarrow> go_slice data 0 i;
             r' \<leftarrow> readDefaultValue_iter data i buf False;
             case r' of
               Inl ret \<Rightarrow> Some ret
             | Inr (i', buf', foundClose) \<Rightarrow>
                 if \<not> foundClose then Some ([], i', Some errUnterminated)
                 else Some (buf', i' + 1, None)
           }
     }"

section \<open>varInfo\<close>

definition varInfo :: "string \<Rightarrow> (string \<times> string \<times> int \<times> cause option) option" where
  "varInfo data =
     do {
       (name, nameLen, err) \<leftarrow> readVarName data;
       if err \<noteq> None then Some ([], [], nameLen, err)
       else do {
         c \<leftarrow> go_index data (nameLen - 1);
         if c = CHR ''}'' then Some (name, [], nameLen, None)
         else do {
           rest \<leftarrow> go_slice data nameLen (int (length data));
           (defaultValue, valLen, err) \<leftarrow> readDefaultValue rest;
           if err \<noteq> None then Some ([], [], nameLen + valLen, err)
           else Some (name, defaultValue, nameLen + valLen, None)
         }
       }
     }"

section \<open>List views of the loops\<close>

text \<open>
  Each index loop, started at the end of a prefix \<open>pre\<close> of its data, is a recursion
  over the remaining characters. The views are used to reason about the loops; the
  lemmas below show that the loops compute them and never leave the data.
\<close>

declare readVarName_loop.simps [simp del] readDefaultValue_scan.simps [simp del]
  readDefaultValue_iter.simps [simp del]

lemma go_index_at_length [simp]:
  "go_index (pre @ c # r) (int (length pre)) = Some c"
  by (simp add: go_index_def)

lemma go_index_Cons_0 [simp]: "go_index (c # r) 0 = Some c"
  by (simp add: go_index_def)

lemma go_slice_prefix [simp]:
  "go_slice (pre @ rest) 0 (int (length pre)) = Some pre"
  by (simp add: go_slice_def)

lemma go_slice_suffix [simp]:
  "go_slice (pre @ rest) (int (length pre)) (int (length pre) + int (length rest)) = Some rest"
  by (simp add: go_slice_def)

fun name_from :: "string \<Rightarrow> string \<Rightarrow> string \<times> int \<times> cause option" where
  "name_from pre [] = ([], int (length pre), Some errUnterminated)"
| "name_from pre (c # r) =
     (if c = CHR ''}'' \<or> c = CHR ''|'' then (pre, int (length pre) + 1, None)
      else if \<not> validNameChar c then ([], int (length pre), Some errInvalidCharacter)
      else name_from (pre @ [c]) r)"

lemma readVarName_loop_view:
  "readVarName_loop (pre @ rest) (int (length pre)) = Some (name_from pre rest)"
proof (induction rest arbitrary: pre)
  case Nil
  show ?case by (subst readVarName_loop.simps) simp
next
  case (Cons c r)
  from Cons [of "pre @ [c]"] show ?case
    by (subst readVarName_loop.simps) (simp add: add.commute)
qed

fun name_view :: "string \<Rightarrow> string \<times> int \<times> cause option" where
  "name_view [] = ([], 0, Some errUnterminated)"
| "name_view (c # r) =
     (if c = CHR ''}'' \<or> c = CHR ''|'' then ([], 0, Some errEmptyString)
      else if \<not> validNameFirstChar c then ([], 0, Some errInvalidStartingCharacter)
      else name_from [c] r)"

lemma readVarName_view: "readVarName data = Some (name_view data)"
proof (cases data)
  case Nil
  then show ?thesis by (simp add: readVarName_def)
next
  case (Cons c r)
  with readVarName_loop_view [of "[c]" r] show ?thesis
    by (simp add: readVarName_def)
qed

fun scan_from :: "string \<Rightarrow> string \<Rightarrow> (string \<times> int \<times> cause option) + int" where
  "scan_from pre [] = Inr (int (length pre))"
| "scan_from pre (c # r) =
     (if c = CHR ''}'' then Inl (pre, int (length pre) + 1, None)
      else if c = backslash then Inr (int (length pre))
      else scan_from (pre @ [c]) r)"

lemma readDefaultValue_scan_view:
  "readDefaultValue_scan (pre @ rest) (int (length pre)) False = Some (scan_from pre rest)"
proof (induction rest arbitrary: pre)
  case Nil
  show ?case by (subst readDefaultValue_scan.simps) simp
next
  case (Cons c r)
  from Cons [of "pre @ [c]"] show ?case
    by (subst readDefaultValue_scan.simps) (simp add: add.commute)
qed

fun iter_from ::
  "int \<Rightarrow> string \<Rightarrow> bool \<Rightarrow> string \<Rightarrow> (string \<times> int \<times> cause option) + (int \<times> string \<times> bool)" where
  "iter_from n buf escaped [] = Inr (n, buf, False)"
| "iter_from n buf escaped (c # r) =
     (if c = backslash then iter_from (n + 1) (if escaped then buf @ [c] else buf) (\<not> escaped) r
      else if c = CHR ''}'' \<and> \<not> escaped then Inr (n, buf, True)
      else if escaped \<and> c \<noteq> CHR ''}'' then Inl ([], n, Some errInvalidEscape)
      else iter_from (n + 1) (buf @ [c]) False r)"

lemma readDefaultValue_iter_view:
  "readDefaultValue_iter (pre @ rest) (int (length pre)) buf escaped
     = Some (iter_from (int (length pre)) buf escaped rest)"
proof (induction rest arbitrary: pre buf escaped)
  case Nil
  show ?case by (subst readDefaultValue_iter.simps) simp
next
  case (Cons c r)
  from Cons [of "pre @ [c]"] show ?case
    by (subst readDefaultValue_iter.simps) (auto simp: add.commute)
qed

definition finish_default ::
  "(string \<times> int \<times> cause option) + (int \<times> string \<times> bool) \<Rightarrow> string \<times> int \<times> cause option" where
  "finish_default r =
     (case r of
        Inl ret \<Rightarrow> ret
      | Inr (i, buf, foundClose) \<Rightarrow>
          if \<not> foundClose then ([], i, Some errUnterminated) else (buf, i + 1, None))"

definition default_view :: "string \<Rightarrow> string \<times> int \<times> cause option" where
  "default_view data = finish_default (iter_from 0 [] False data)"

definition plain :: "char \<Rightarrow> bool" where
  "plain c \<longleftrightarrow> c \<noteq> CHR ''}'' \<and> c \<noteq> backslash"

lemma iter_from_plain:
  "\<forall>c\<in>set a. plain c \<Longrightarrow>
     iter_from n buf False (a @ b) = iter_from (n + int (length a)) (buf @ a) False b"
proof (induction a arbitrary: n buf)
  case Nil
  then show ?case by simp
next
  case (Cons c a)
  from Cons.prems have "plain c" and "\<forall>c\<in>set a. plain c" by simp_all
  with Cons.IH [of "n + 1" "buf @ [c]"] show ?case
    by (simp add: plain_def ac_simps)
qed

lemma scan_from_plain:
  "\<forall>c\<in>set a. plain c \<Longrightarrow> scan_from pre (a @ b) = scan_from (pre @ a) b"
proof (induction a arbitrary: pre)
  case Nil
  then show ?case by simp
next
  case (Cons c a)
  from Cons.prems have "plain c" and "\<forall>c\<in>set a. plain c" by simp_all
  with Cons.IH [of "pre @ [c]"] show ?case
    by (simp add: plain_def)
qed

lemma readDefaultValue_view: "readDefaultValue data = Some (default_view data)"
proof -
  define a where "a = takeWhile plain data"
  define b where "b = dropWhile plain data"
  have data: "data = a @ b" by (simp add: a_def b_def)
  have pl: "\<forall>c\<in>set a. plain c" by (auto simp: a_def dest: set_takeWhileD)
  have view: "default_view data = finish_default (iter_from (int (length a)) a False b)"
    using iter_from_plain [OF pl, of 0 "[]" b] by (simp add: default_view_def data)
  have scan: "readDefaultValue_scan data 0 False = Some (scan_from a b)"
    using readDefaultValue_scan_view [of "[]" data] scan_from_plain [OF pl, of "[]" b]
    by (simp add: data)
  show ?thesis
  proof (cases b)
    case Nil
    with scan view data show ?thesis
      by (simp add: readDefaultValue_def finish_default_def)
  next
    case (Cons c r)
    have "dropWhile plain data \<noteq> []" using Cons by (simp add: b_def)
    from hd_dropWhile [OF this] have hd: "\<not> plain c"
      using Cons by (simp add: b_def [symmetric])
    show ?thesis
    proof (cases "c = CHR ''}''")
      case True
      with scan view Cons show ?thesis
        by (simp add: readDefaultValue_def finish_default_def)
    next
      case False
      with hd have c: "c = backslash" by (simp add: plain_def)
      have ne: "int (length a) \<noteq> int (length data)" by (simp add: data Cons)
      have sl: "go_slice data 0 (int (length a)) = Some a" by (simp add: data)
      have it: "readDefaultValue_iter data (int (length a)) a False
                  = Some (iter_from (int (length a)) a False b)"
        using readDefaultValue_iter_view [of a b a False] by (simp add: data)
      from Cons c have "scan_from a b = Inr (int (length a))" by simp
      with scan ne sl it view show ?thesis
        by (simp add: readDefaultValue_def finish_default_def split: sum.splits prod.splits)
    qed
  qed
qed

lemma name_from_bounds:
  "name_from pre rest = (name, n, e) \<Longrightarrow>
     int (length pre) \<le> n \<and> n \<le> int (length pre) + int (length rest)"
proof (induction rest arbitrary: pre)
  case Nil
  then show ?case by simp
next
  case (Cons c r)
  show ?case
  proof (cases "c = CHR ''}'' \<or> c = CHR ''|'' \<or> \<not> validNameChar c")
    case True
    with Cons.prems show ?thesis by (auto split: if_splits)
  next
    case False
    with Cons.prems have "name_from (pre @ [c]) r = (name, n, e)" by simp
    from Cons.IH [OF this] show ?thesis by simp
  qed
qed

lemma name_from_ok:
  "name_from pre rest = (name, n, None) \<Longrightarrow>
     int (length pre) < n \<and> n \<le> int (length pre) + int (length rest) \<and>
     name = take (nat (n - 1)) (pre @ rest) \<and>
     ((pre @ rest) ! nat (n - 1) = CHR ''}'' \<or> (pre @ rest) ! nat (n - 1) = CHR ''|'')"
proof (induction rest arbitrary: pre)
  case Nil
  then show ?case by simp
next
  case (Cons c r)
  show ?case
  proof (cases "c = CHR ''}'' \<or> c = CHR ''|''")
    case True
    with Cons.prems show ?thesis by (auto split: if_splits)
  next
    case False
    with Cons.prems have "name_from (pre @ [c]) r = (name, n, None)" by (simp split: if_splits)
    from Cons.IH [OF this] show ?thesis by simp
  qed
qed

lemma name_view_bounds:
  "name_view data = (name, n, e) \<Longrightarrow> 0 \<le> n \<and> n \<le> int (length data)"
proof (cases data)
  case Nil
  assume "name_view data = (name, n, e)"
  with Nil show ?thesis by simp
next
  case (Cons c r)
  assume v: "name_view data = (name, n, e)"
  show ?thesis
  proof (cases "name_view data = name_from [c] r")
    case True
    with v name_from_bounds [of "[c]" r name n e] Cons show ?thesis by simp
  next
    case False
    with v Cons show ?thesis by (auto split: if_splits)
  qed
qed

lemma name_view_ok:
  assumes "name_view data = (name, n, None)"
  shows "1 < n" and "n \<le> int (length data)" and "name = take (nat (n - 1)) data"
    and "data ! nat (n - 1) = CHR ''}'' \<or> data ! nat (n - 1) = CHR ''|''"
proof -
  from assms obtain c r where data: "data = c # r" by (cases data) auto
  with assms have nf: "name_from [c] r = (name, n, None)" by (simp split: if_splits)
  have eq: "[c] @ r = data" by (simp add: data)
  note ok = name_from_ok [OF nf, unfolded eq]
  from ok show "1 < n" by simp
  from ok show "n \<le> int (length data)" by (simp add: data)
  from ok show "name = take (nat (n - 1)) data" by blast
  from ok show "data ! nat (n - 1) = CHR ''}'' \<or> data ! nat (n - 1) = CHR ''|''" by blast
qed

lemma iter_from_bounds:
  "finish_default (iter_from n buf escaped rest) = (v, m, e) \<Longrightarrow>
     n \<le> m \<and> m \<le> n + int (length rest) \<and> (e = None \<longrightarrow> n < m)"
proof (induction rest arbitrary: n buf escaped)
  case Nil
  then show ?case by (auto simp: finish_default_def)
next
  case (Cons c r)
  show ?case
  proof (cases "c = backslash")
    case True
    with Cons.prems
    have "finish_default (iter_from (n + 1) (if escaped then buf @ [c] else buf) (\<not> escaped) r) = (v, m, e)"
      by (cases escaped) simp_all
    from Cons.IH [OF this] show ?thesis by simp
  next
    case False
    show ?thesis
    proof (cases "(c = CHR ''}'' \<and> \<not> escaped) \<or> (escaped \<and> c \<noteq> CHR ''}'')")
      case True
      with False Cons.prems show ?thesis by (auto simp: finish_default_def split: if_splits)
    next
      case False
      with \<open>c \<noteq> backslash\<close> Cons.prems
      have "finish_default (iter_from (n + 1) (buf @ [c]) False r) = (v, m, e)"
        by (simp split: if_splits)
      from Cons.IH [OF this] show ?thesis by simp
    qed
  qed
qed

lemma default_view_bounds:
  "default_view data = (v, m, e) \<Longrightarrow> 0 \<le> m \<and> m \<le> int (length data) \<and> (e = None \<longrightarrow> 0 < m)"
  using iter_from_bounds [of 0 "[]" False data v m e] by (simp add: default_view_def)

definition varInfo_view :: "string \<Rightarrow> string \<times> string \<times> int \<times> cause option" where
  "varInfo_view data =
     (case name_view data of
        (name, nameLen, Some e) \<Rightarrow> ([], [], nameLen, Some e)
      | (name, nameLen, None) \<Rightarrow>
          if data ! nat (nameLen - 1) = CHR ''}'' then (name, [], nameLen, None)
          else (case default_view (drop (nat nameLen) data) of
                  (defaultValue, valLen, Some e) \<Rightarrow> ([], [], nameLen + valLen, Some e)
                | (defaultValue, valLen, None) \<Rightarrow> (name, defaultValue, nameLen + valLen, None)))"

lemma varInfo_view: "varInfo data = Some (varInfo_view data)"
proof -
  obtain name n e where nv: "name_view data = (name, n, e)" by (cases "name_view data") auto
  show ?thesis
  proof (cases e)
    case (Some c)
    with nv show ?thesis
      by (simp add: varInfo_def varInfo_view_def readVarName_view)
  next
    case None
    from name_view_ok [OF nv [unfolded None]]
    have n: "1 < n" "n \<le> int (length data)" by simp_all
    then have ix: "go_index data (n - 1) = Some (data ! nat (n - 1))"
      by (simp add: go_index_def)
    from n have sl: "go_slice data n (int (length data)) = Some (drop (nat n) data)"
      by (simp add: go_slice_def)
    obtain v m e' where dv: "default_view (drop (nat n) data) = (v, m, e')"
      by (cases "default_view (drop (nat n) data)") auto
    from nv None ix sl dv show ?thesis
      by (cases e') (simp_all add: varInfo_def varInfo_view_def readVarName_view readDefaultValue_view)
  qed
qed

lemma varInfo_view_bounds:
  assumes "varInfo_view data = (name, defaultValue, w, e)"
  shows "0 \<le> w" and "w \<le> int (length data)" and "e = None \<Longrightarrow> 1 < w"
proof -
  obtain nm n e0 where nv: "name_view data = (nm, n, e0)" by (cases "name_view data") auto
  note nb = name_view_bounds [OF nv]
  have "0 \<le> w \<and> w \<le> int (length data) \<and> (e = None \<longrightarrow> 1 < w)"
  proof (cases e0)
    case (Some c)
    with nv assms nb show ?thesis by (auto simp: varInfo_view_def)
  next
    case None
    note ok = name_view_ok [OF nv [unfolded None]]
    show ?thesis
    proof (cases "data ! nat (n - 1) = CHR ''}''")
      case True
      with nv None assms ok show ?thesis by (simp add: varInfo_view_def)
    next
      case False
      obtain v m e' where dv: "default_view (drop (nat n) data) = (v, m, e')"
        by (cases "default_view (drop (nat n) data)") auto
      from default_view_bounds [OF dv] ok(1,2)
      have "0 \<le> m" "n + m \<le> int (length data)" by simp_all
      with nv None assms ok(1) False dv show ?thesis
        by (cases e') (auto simp: varInfo_view_def)
    qed
  qed
  then show "0 \<le> w" and "w \<le> int (length data)" and "e = None \<Longrightarrow> 1 < w" by simp_all
qed

lemma varInfo_bounds:
  assumes "varInfo data = Some (name, defaultValue, w, e)"
  shows "0 \<le> w" and "w \<le> int (length data)"
  using assms varInfo_view_bounds [of data name defaultValue w e] by (simp_all add: varInfo_view)

section \<open>Expand\<close>

text \<open>
  The \<^verbatim>\<open>for\<close> loop of \<^verbatim>\<open>Expand\<close> over \<open>j\<close>, with the variables \<open>i\<close>, \<open>dollar\<close> and
  \<open>buf\<close> it updates. It either returns the syntax error (\<open>Inl\<close>) or leaves the loop
  with \<open>i\<close>, \<open>dollar\<close> and \<open>buf\<close> (\<open>Inr\<close>). It panics (\<open>None\<close>) when an index or
  slice expression is out of range or the call of the provider panics.
\<close>

function Expand_loop ::
  "string \<Rightarrow> Environment \<Rightarrow> int \<Rightarrow> int \<Rightarrow> bool \<Rightarrow> slice \<Rightarrow>
     (invalidSyntaxErr + (int \<times> bool \<times> slice)) option" where
  "Expand_loop tmpl lookupEnv i j dollar buf =
     (if j < int (length tmpl) then
        do {
          c \<leftarrow> go_index tmpl j;
          if c = CHR ''$'' then
            (if \<not> dollar then Expand_loop tmpl lookupEnv i (j + 1) True buf
             else do {
               lit \<leftarrow> go_slice tmpl i j;
               Expand_loop tmpl lookupEnv (j + 1) (j + 1) False (go_append buf lit)
             })
          else if c = CHR ''{'' then
            (if \<not> dollar then Expand_loop tmpl lookupEnv i (j + 1) dollar buf
             else do {
               lit \<leftarrow> go_slice tmpl i (j - 1);
               rest \<leftarrow> go_slice tmpl (j + 1) (int (length tmpl));
               (name, defaultValue, w, err) \<leftarrow> varInfo rest;
               case err of
                 Some e \<Rightarrow>
                   do {
                     v \<leftarrow> go_slice tmpl (j - 1)
                            (if j + w + 5 > int (length tmpl) then int (length tmpl) else j + w + 5);
                     Some (Inl \<lparr>position = w + 2, value = v, err = e\<rparr>)
                   }
               | None \<Rightarrow>
                   do {
                     (val, ok) \<leftarrow> LookupEnv lookupEnv name;
                     Expand_loop tmpl lookupEnv (j + w + 1) (j + w + 1) False
                       (go_append (go_append (if buf = NilSlice then Slice [] else buf) lit)
                          (if ok then val else defaultValue))
                   }
             })
          else Expand_loop tmpl lookupEnv i (j + 1) False buf
        }
      else Some (Inr (i, dollar, buf)))"
  by pat_completeness auto
termination
  by (relation "measure (\<lambda>(tmpl, lookupEnv, i, j, dollar, buf). nat (int (length tmpl) - j))")
    (auto dest: varInfo_bounds(1))

declare Expand_loop.simps [simp del]

definition Expand ::
  "string \<Rightarrow> Environment \<Rightarrow> slice \<Rightarrow> (slice \<times> invalidSyntaxErr option) option" where
  "Expand tmpl lookupEnv buf =
     do {
       r \<leftarrow> Expand_loop tmpl lookupEnv 0 0 False buf;
       case r of
         Inl e \<Rightarrow> Some (NilSlice, Some e)
       | Inr (i, dollar, buf') \<Rightarrow>
           do { lit \<leftarrow> go_slice tmpl i (int (length tmpl)); Some (go_append buf' lit, None) }
     }"

section \<open>Expand as a pass over the remaining template\<close>

text \<open>
  The output that \<^verbatim>\<open>Expand\<close> would return if the template ended here is
  \<open>append(buf, tmpl[i:j])\<close>. The loop, seen through this value, is a recursion over
  the characters that remain; \<open>Expand_loop_view\<close> proves that the index loop computes
  it without leaving the template.
\<close>

lemma go_append_Nil [simp]: "go_append b [] = b"
  by (cases b) simp_all

lemma go_append_assoc [simp]: "go_append (go_append b xs) ys = go_append b (xs @ ys)"
  by (cases b) simp_all

lemma contents_go_append [simp]: "contents (go_append b xs) = contents b @ xs"
  by (cases b) simp_all

lemma go_slice_to_length:
  "0 \<le> i \<Longrightarrow> i \<le> int (length pre) \<Longrightarrow>
     go_slice (pre @ rest) i (int (length pre)) = Some (drop (nat i) pre)"
  by (simp add: go_slice_def)

lemma go_slice_drop:
  "0 \<le> i \<Longrightarrow> i \<le> int (length s) \<Longrightarrow> go_slice s i (int (length s)) = Some (drop (nat i) s)"
  by (simp add: go_slice_def)

lemma go_slice_after:
  "go_slice (pre @ c # r) (int (length pre) + 1) (int (length (pre @ c # r))) = Some r"
  by (simp add: go_slice_def nat_add_distrib)

lemma go_slice_before_last:
  "0 \<le> i \<Longrightarrow> i < int (length pre) \<Longrightarrow>
     go_slice (pre @ rest) i (int (length pre) - 1) = Some (butlast (drop (nat i) pre))"
proof -
  assume i: "0 \<le> i" "i < int (length pre)"
  then have "nat (int (length pre) - 1 - i) = length pre - Suc (nat i)" by linarith
  with i show ?thesis
    by (simp add: go_slice_def butlast_conv_take)
qed

lemma go_slice_preview:
  assumes "pre \<noteq> []" and "0 \<le> w"
  shows "go_slice (pre @ c # r) (int (length pre) - 1)
           (if int (length pre) + w + 5 > int (length (pre @ c # r))
            then int (length (pre @ c # r)) else int (length pre) + w + 5)
         = Some (take (nat (w + 6)) (last pre # c # r))"
proof -
  from assms(1) obtain ys y where pre: "pre = ys @ [y]" by (cases pre rule: rev_cases) auto
  have d: "drop (length ys) (ys @ y # c # r) = y # c # r" by simp
  show ?thesis
  proof (cases "int (length pre) + w + 5 > int (length (pre @ c # r))")
    case True
    with assms(2) have "nat (w + 6) \<ge> length (y # c # r)" by (simp add: pre)
    with True assms(2) d show ?thesis
      by (simp add: pre go_slice_def)
  next
    case False
    with assms(2) d show ?thesis
      by (simp add: pre go_slice_def nat_add_distrib add.commute)
  qed
qed


function expand_from ::
  "Environment \<Rightarrow> bool \<Rightarrow> slice \<Rightarrow> string \<Rightarrow> (invalidSyntaxErr + (bool \<times> slice)) option" where
  "expand_from p dollar out [] = Some (Inr (dollar, out))"
| "expand_from p dollar out (c # r) =
     (if c = CHR ''$'' then
        (if \<not> dollar then expand_from p True (go_append out [c]) r
         else expand_from p False out r)
      else if c = CHR ''{'' then
        (if \<not> dollar then expand_from p False (go_append out [c]) r
         else (case varInfo_view r of
                 (name, defaultValue, w, Some e) \<Rightarrow>
                   Some (Inl \<lparr>position = w + 2, value = take (nat (w + 6)) (CHR ''$'' # c # r),
                              err = e\<rparr>)
               | (name, defaultValue, w, None) \<Rightarrow>
                   (case LookupEnv p name of
                      None \<Rightarrow> None
                    | Some (val, ok) \<Rightarrow>
                        expand_from p False
                          (go_append (Slice (butlast (contents out))) (if ok then val else defaultValue))
                          (drop (nat w) r))))
      else expand_from p False (go_append out [c]) r)"
  by pat_completeness auto
termination
  by (relation "measure (\<lambda>(p, dollar, out, rest). length rest)") auto

definition Expand_flush ::
  "string \<Rightarrow> invalidSyntaxErr + (int \<times> bool \<times> slice) \<Rightarrow> (invalidSyntaxErr + (bool \<times> slice)) option" where
  "Expand_flush tmpl r =
     (case r of
        Inl e \<Rightarrow> Some (Inl e)
      | Inr (i, dollar, buf') \<Rightarrow>
          do { lit \<leftarrow> go_slice tmpl i (int (length tmpl)); Some (Inr (dollar, go_append buf' lit)) })"

definition expand_result :: "invalidSyntaxErr + (bool \<times> slice) \<Rightarrow> slice \<times> invalidSyntaxErr option" where
  "expand_result r = (case r of Inl e \<Rightarrow> (NilSlice, Some e) | Inr (dollar, out) \<Rightarrow> (out, None))"

lemma Expand_loop_view:
  "0 \<le> i \<Longrightarrow> i \<le> int (length pre) \<Longrightarrow>
   (dollar \<longrightarrow> i < int (length pre) \<and> last pre = CHR ''$'') \<Longrightarrow>
   Expand_loop (pre @ rest) p i (int (length pre)) dollar buf \<bind> Expand_flush (pre @ rest)
     = expand_from p dollar (go_append buf (drop (nat i) pre)) rest"
proof (induction "length rest" arbitrary: rest pre i dollar buf rule: less_induct)
  case less
  note i = less.prems
  show ?case
  proof (cases rest)
    case Nil
    with i show ?thesis
      by (subst Expand_loop.simps)
        (simp add: Expand_flush_def go_slice_drop)
  next
    case (Cons c r)
    have len: "int (length pre) < int (length (pre @ rest))" by (simp add: Cons)
    have ix: "go_index (pre @ rest) (int (length pre)) = Some c" by (simp add: Cons)
    have ni: "nat i \<le> length pre" using i by simp
    have step: "\<And>d b. (d \<longrightarrow> c = CHR ''$'') \<Longrightarrow>
        Expand_loop (pre @ rest) p i (int (length pre) + 1) d b \<bind> Expand_flush (pre @ rest)
          = expand_from p d (go_append (go_append b (drop (nat i) pre)) [c]) r"
    proof -
      fix d b
      assume d: "d \<longrightarrow> c = CHR ''$''"
      have "Expand_loop ((pre @ [c]) @ r) p i (int (length (pre @ [c]))) d b \<bind> Expand_flush ((pre @ [c]) @ r)
          = expand_from p d (go_append b (drop (nat i) (pre @ [c]))) r"
        using i d by (intro less.hyps) (simp_all add: Cons)
      then show "Expand_loop (pre @ rest) p i (int (length pre) + 1) d b \<bind> Expand_flush (pre @ rest)
          = expand_from p d (go_append (go_append b (drop (nat i) pre)) [c]) r"
        using ni by (simp add: Cons add.commute)
    qed
    have jump: "\<And>k b. k \<le> length r \<Longrightarrow>
        Expand_loop (pre @ rest) p (int (length pre) + int k + 1) (int (length pre) + int k + 1) False b
            \<bind> Expand_flush (pre @ rest)
          = expand_from p False b (drop k r)"
    proof -
      fix k b
      assume k: "k \<le> length r"
      let ?pre = "pre @ c # take k r"
      have eq: "?pre @ drop k r = pre @ rest" by (simp add: Cons)
      have l: "int (length ?pre) = int (length pre) + int k + 1" using k by simp
      have "Expand_loop (?pre @ drop k r) p (int (length ?pre)) (int (length ?pre)) False b
               \<bind> Expand_flush (?pre @ drop k r)
          = expand_from p False (go_append b (drop (nat (int (length ?pre))) ?pre)) (drop k r)"
        by (intro less.hyps) (simp_all add: Cons)
      then show "Expand_loop (pre @ rest) p (int (length pre) + int k + 1) (int (length pre) + int k + 1) False b
            \<bind> Expand_flush (pre @ rest)
          = expand_from p False b (drop k r)"
        unfolding eq l by simp
    qed
    show ?thesis
    proof (cases "c = CHR ''$''")
      case True
      show ?thesis
      proof (cases dollar)
        case False
        with True len ix step [of True buf] show ?thesis
          by (subst Expand_loop.simps) (simp add: Cons)
      next
        case d: True
        have sl: "go_slice (pre @ rest) i (int (length pre)) = Some (drop (nat i) pre)"
          using i by (simp add: go_slice_to_length)
        from jump [of 0 "go_append buf (drop (nat i) pre)"]
        have "Expand_loop (pre @ rest) p (int (length pre) + 1) (int (length pre) + 1) False
                (go_append buf (drop (nat i) pre)) \<bind> Expand_flush (pre @ rest)
              = expand_from p False (go_append buf (drop (nat i) pre)) r"
          by simp
        with True d len ix sl show ?thesis
          by (subst Expand_loop.simps) (simp add: Cons)
      qed
    next
      case nd: False
      show ?thesis
      proof (cases "c = CHR ''{'' \<and> dollar")
        case False
        with nd len ix step [of False buf] show ?thesis
          by (subst Expand_loop.simps) (auto simp: Cons)
      next
        case True
        then have c: "c = CHR ''{''" and d: dollar by simp_all
        from d i have ne: "pre \<noteq> []" and lp: "last pre = CHR ''$''" and il: "i < int (length pre)"
          by auto
        have sl1: "go_slice (pre @ rest) i (int (length pre) - 1) = Some (butlast (drop (nat i) pre))"
          using i il by (simp add: go_slice_before_last)
        have sl2: "go_slice (pre @ rest) (int (length pre) + 1) (int (length (pre @ rest))) = Some r"
          unfolding Cons by (rule go_slice_after)
        obtain name dv w e where vi: "varInfo_view r = (name, dv, w, e)"
          by (cases "varInfo_view r") auto
        note wb = varInfo_view_bounds [OF vi]
        have bl: "butlast (contents (go_append buf (drop (nat i) pre))) = contents buf @ butlast (drop (nat i) pre)"
        proof -
          from il i have "drop (nat i) pre \<noteq> []" by simp
          then show ?thesis by (simp add: butlast_append)
        qed
        have nn: "go_append (if buf = NilSlice then Slice [] else buf) (butlast (drop (nat i) pre))
                    = Slice (contents buf @ butlast (drop (nat i) pre))"
          by (cases buf) simp_all
        show ?thesis
        proof (cases e)
          case (Some ce)
          have pv: "go_slice (pre @ rest) (int (length pre) - 1)
              (if int (length pre) + w + 5 > int (length (pre @ rest))
               then int (length (pre @ rest)) else int (length pre) + w + 5)
              = Some (take (nat (w + 6)) (CHR ''$'' # c # r))"
            unfolding Cons using go_slice_preview [OF ne wb(1), of c r] lp by simp
          from c d nd len ix sl1 sl2 vi Some pv show ?thesis
            by (subst Expand_loop.simps)
              (simp add: Cons varInfo_view Expand_flush_def)
        next
          case None
          from wb(1,2) have k: "nat w \<le> length r" by simp
          from jump [OF k] wb(1)
          have j: "\<And>b. Expand_loop (pre @ rest) p (int (length pre) + w + 1) (int (length pre) + w + 1) False b
               \<bind> Expand_flush (pre @ rest)
             = expand_from p False b (drop (nat w) r)"
            by simp
          show ?thesis
          proof (cases "LookupEnv p name")
            case lk: None
            have "Expand_loop (pre @ rest) p i (int (length pre)) dollar buf = None"
              using c d nd len ix sl1 sl2 vi None lk
              by (subst Expand_loop.simps) (simp add: Cons varInfo_view)
            moreover have "expand_from p dollar (go_append buf (drop (nat i) pre)) rest = None"
              using c d vi None lk by (simp add: Cons)
            ultimately show ?thesis by simp
          next
            case (Some vo)
            obtain val ok where lk: "LookupEnv p name = Some (val, ok)"
              using Some by (cases vo) auto
            define v where "v = (if ok then val else dv)"
            define b' where "b' = go_append (go_append (if buf = NilSlice then Slice [] else buf)
                                     (butlast (drop (nat i) pre))) v"
            have b': "b' = go_append (Slice (butlast (contents (go_append buf (drop (nat i) pre))))) v"
              unfolding b'_def nn bl by simp
            have loop: "Expand_loop (pre @ rest) p i (int (length pre)) dollar buf
                  = Expand_loop (pre @ rest) p (int (length pre) + w + 1) (int (length pre) + w + 1) False b'"
              using c d nd len ix sl1 sl2 vi None lk
              by (subst Expand_loop.simps) (simp add: Cons varInfo_view b'_def v_def)
            have view: "expand_from p dollar (go_append buf (drop (nat i) pre)) rest
                  = expand_from p False b' (drop (nat w) r)"
              using c d vi None lk by (simp add: Cons b' v_def)
            show ?thesis unfolding loop view by (rule j)
          qed
        qed
      qed
    qed
  qed
qed

lemma Expand_loop_from_start:
  "Expand_loop tmpl p 0 0 False buf \<bind> Expand_flush tmpl = expand_from p False buf tmpl"
  using Expand_loop_view [of 0 "[]" False tmpl p buf] by simp

lemma Expand_view:
  "Expand tmpl p buf = map_option expand_result (expand_from p False buf tmpl)"
proof (cases "Expand_loop tmpl p 0 0 False buf")
  case None
  with Expand_loop_from_start [of tmpl p buf] have "expand_from p False buf tmpl = None" by simp
  with None show ?thesis by (simp add: Expand_def)
next
  case (Some r)
  with Expand_loop_from_start [of tmpl p buf]
  have fl: "Expand_flush tmpl r = expand_from p False buf tmpl" by simp
  show ?thesis
  proof (cases r)
    case (Inl e)
    with fl have "expand_from p False buf tmpl = Some (Inl e)" by (simp add: Expand_flush_def)
    with Some Inl show ?thesis by (simp add: Expand_def expand_result_def)
  next
    case (Inr st)
    obtain i dollar buf' where st: "st = (i, dollar, buf')" by (cases st) auto
    show ?thesis
    proof (cases "go_slice tmpl i (int (length tmpl))")
      case None
      with fl Inr st have "expand_from p False buf tmpl = None" by (simp add: Expand_flush_def)
      with Some Inr st None show ?thesis by (simp add: Expand_def)
    next
      case lit: (Some lit)
      with fl Inr st have "expand_from p False buf tmpl = Some (Inr (dollar, go_append buf' lit))"
        by (simp add: Expand_flush_def)
      with Some Inr st lit show ?thesis by (simp add: Expand_def expand_result_def)
    qed
  qed
qed

section \<open>Literal text and the supplied buffer\<close>

lemma expand_from_no_dollar:
  "CHR ''$'' \<notin> set rest \<Longrightarrow> expand_from p False out rest = Some (Inr (False, go_append out rest))"
  by (induction rest arbitrary: out) auto

definition shown ::
  "string \<Rightarrow> (invalidSyntaxErr + (bool \<times> slice)) option \<Rightarrow> (invalidSyntaxErr + (bool \<times> string)) option" where
  "shown pfx r = map_option (map_sum id (map_prod id (\<lambda>out. pfx @ contents out))) r"

lemma expand_from_buffer:
  "contents out = pfx @ contents out' \<Longrightarrow> (dollar \<longrightarrow> contents out' \<noteq> []) \<Longrightarrow>
     shown [] (expand_from p dollar out rest) = shown pfx (expand_from p dollar out' rest)"
proof (induction "length rest" arbitrary: rest out out' dollar rule: less_induct)
  case less
  note out = less.prems(1) and ne = less.prems(2)
  show ?case
  proof (cases rest)
    case Nil
    with out show ?thesis by (simp add: shown_def)
  next
    case (Cons c r)
    have lit: "\<And>d. shown [] (expand_from p d (go_append out [c]) r)
                   = shown pfx (expand_from p d (go_append out' [c]) r)"
      using out by (intro less.hyps) (simp_all add: Cons)
    show ?thesis
    proof (cases "c = CHR ''$''")
      case True
      show ?thesis
      proof (cases dollar)
        case False
        with True lit [of True] show ?thesis by (simp add: Cons)
      next
        case d: True
        have "shown [] (expand_from p False out r) = shown pfx (expand_from p False out' r)"
          using out by (intro less.hyps) (simp_all add: Cons)
        with True d show ?thesis by (simp add: Cons)
      qed
    next
      case nd: False
      show ?thesis
      proof (cases "c = CHR ''{'' \<and> dollar")
        case False
        with nd lit [of False] show ?thesis by (auto simp: Cons)
      next
        case True
        then have c: "c = CHR ''{''" and d: dollar by simp_all
        obtain name dv w e where vi: "varInfo_view r = (name, dv, w, e)"
          by (cases "varInfo_view r") auto
        show ?thesis
        proof (cases e)
          case (Some ce)
          with c d vi show ?thesis by (simp add: Cons shown_def)
        next
          case None
          from d ne out have bl: "butlast (contents out) = pfx @ butlast (contents out')"
            by (simp add: butlast_append)
          have "\<And>v. shown [] (expand_from p False (go_append (Slice (butlast (contents out))) v) (drop (nat w) r))
              = shown pfx (expand_from p False (go_append (Slice (butlast (contents out'))) v) (drop (nat w) r))"
            by (intro less.hyps) (simp_all add: Cons bl)
          with c d vi None show ?thesis
            by (cases "LookupEnv p name") (auto simp: Cons shown_def)
        qed
      qed
    qed
  qed
qed

section \<open>The escape grammar of default values\<close>

text \<open>
  The escape grammar of default values in the specification's words: a backslash
  followed by \<open>}\<close> denotes a literal \<open>}\<close> that does not end the value, two
  backslashes denote one literal backslash, any other character after an unconsumed
  backslash is invalid, and an unescaped \<open>}\<close> ends the value. \<open>spec_unescape raw\<close>
  is the value denoted by a text \<open>raw\<close> that lies wholly inside a default value
  (\<open>None\<close> if \<open>raw\<close> is not such a text).
\<close>

fun spec_unescape :: "string \<Rightarrow> string option" where
  "spec_unescape [] = Some []"
| "spec_unescape (c # r) =
     (if c = backslash then
        (case r of
           [] \<Rightarrow> None
         | c' # r' \<Rightarrow>
             if c' = CHR ''}'' \<or> c' = backslash then map_option ((#) c') (spec_unescape r')
             else None)
      else if c = CHR ''}'' then None
      else map_option ((#) c) (spec_unescape r))"

lemma iter_from_unescape:
  "spec_unescape raw = Some d \<Longrightarrow>
     iter_from n buf False (raw @ rest) = iter_from (n + int (length raw)) (buf @ d) False rest"
proof (induction raw arbitrary: n buf d rule: spec_unescape.induct)
  case 1
  then show ?case by simp
next
  case (2 c r)
  show ?case
  proof (cases "c = backslash")
    case True
    with "2.prems" obtain c' r' d' where r: "r = c' # r'" and c': "c' = CHR ''}'' \<or> c' = backslash"
      and d': "spec_unescape r' = Some d'" and d: "d = c' # d'"
      by (auto split: list.splits if_splits)
    from "2.IH"(1) [OF True r c' d', of "n + 2" "buf @ [c']"]
    have "iter_from (n + 2) (buf @ [c']) False (r' @ rest)
          = iter_from (n + 2 + int (length r')) ((buf @ [c']) @ d') False rest" .
    with True r c' d show ?thesis by (auto simp: ac_simps)
  next
    case False
    with "2.prems" obtain d' where nc: "c \<noteq> CHR ''}''" and d': "spec_unescape r = Some d'"
      and d: "d = c # d'"
      by (auto split: if_splits)
    from "2.IH"(2) [OF False nc d', of "n + 1" "buf @ [c]"]
    have "iter_from (n + 1) (buf @ [c]) False (r @ rest)
          = iter_from (n + 1 + int (length r)) ((buf @ [c]) @ d') False rest" .
    with False nc d show ?thesis by (simp add: ac_simps)
  qed
qed

lemma default_view_close:
  "spec_unescape raw = Some d \<Longrightarrow>
     default_view (raw @ CHR ''}'' # rest) = (d, int (length raw) + 1, None)"
  using iter_from_unescape [of raw d 0 "[]" "CHR ''}'' # rest"]
  by (simp add: default_view_def finish_default_def)

lemma default_view_invalid_escape:
  "spec_unescape raw = Some d \<Longrightarrow> c \<noteq> backslash \<Longrightarrow> c \<noteq> CHR ''}'' \<Longrightarrow>
     default_view (raw @ backslash # c # rest) = ([], int (length raw) + 1, Some errInvalidEscape)"
  using iter_from_unescape [of raw d 0 "[]" "backslash # c # rest"]
  by (simp add: default_view_def finish_default_def)

section \<open>The name pattern\<close>

text \<open>
  The name pattern of the specification, \<open>[a-zA-Z_][a-zA-Z0-9_]*\<close>, with its
  character classes written out.
\<close>

definition ascii_lower :: string where
  "ascii_lower = ''abcdefghijklmnopqrstuvwxyz''"

definition ascii_upper :: string where
  "ascii_upper = ''ABCDEFGHIJKLMNOPQRSTUVWXYZ''"

definition ascii_digits :: string where
  "ascii_digits = ''0123456789''"

definition ascii_letters :: string where
  "ascii_letters = ascii_lower @ ascii_upper"

definition spec_name_pattern :: "string \<Rightarrow> bool" where
  "spec_name_pattern name \<longleftrightarrow>
     (case name of
        [] \<Rightarrow> False
      | c # cs \<Rightarrow>
          c \<in> set (ascii_letters @ ''_'') \<and> set cs \<subseteq> set (ascii_letters @ ascii_digits @ ''_''))"

lemma char_between:
  fixes c :: char
  assumes "lo \<le> c" "c \<le> hi"
  shows "c \<in> set (map char_of [of_char lo ..< Suc (of_char hi)])"
proof -
  from assms have "(of_char lo :: nat) \<le> of_char c" "(of_char c :: nat) \<le> of_char hi"
    by (simp_all add: less_eq_char_def)
  then have "(of_char lo :: nat) \<le> of_char c \<and> (of_char c :: nat) < Suc (of_char hi)"
    by (simp only: less_Suc_eq_le)
  then have "of_char c \<in> set [of_char lo ..< Suc (of_char hi)]"
    by (simp only: set_upt atLeastLessThan_iff)
  then have "char_of (of_char c :: nat) \<in> char_of ` set [of_char lo ..< Suc (of_char hi)]"
    by (rule imageI)
  then show ?thesis by simp
qed

lemma lower_case: "CHR ''a'' \<le> c \<Longrightarrow> c \<le> CHR ''z'' \<Longrightarrow> c \<in> set ascii_lower"
proof -
  assume a: "CHR ''a'' \<le> c" "c \<le> CHR ''z''"
  have "map char_of [of_char CHR ''a'' ..< Suc (of_char CHR ''z'')] = ascii_lower"
    unfolding ascii_lower_def by code_simp
  with char_between [OF a] show ?thesis by (simp only:)
qed

lemma upper_case: "CHR ''A'' \<le> c \<Longrightarrow> c \<le> CHR ''Z'' \<Longrightarrow> c \<in> set ascii_upper"
proof -
  assume a: "CHR ''A'' \<le> c" "c \<le> CHR ''Z''"
  have "map char_of [of_char CHR ''A'' ..< Suc (of_char CHR ''Z'')] = ascii_upper"
    unfolding ascii_upper_def by code_simp
  with char_between [OF a] show ?thesis by (simp only:)
qed

lemma digit: "CHR ''0'' \<le> c \<Longrightarrow> c \<le> CHR ''9'' \<Longrightarrow> c \<in> set ascii_digits"
proof -
  assume a: "CHR ''0'' \<le> c" "c \<le> CHR ''9''"
  have "map char_of [of_char CHR ''0'' ..< Suc (of_char CHR ''9'')] = ascii_digits"
    unfolding ascii_digits_def by code_simp
  with char_between [OF a] show ?thesis by (simp only:)
qed

lemma validNameFirstChar_class:
  assumes "validNameFirstChar c"
  shows "c \<in> set (ascii_letters @ ''_'')"
proof -
  from assms consider "CHR ''a'' \<le> c \<and> c \<le> CHR ''z''" | "CHR ''A'' \<le> c \<and> c \<le> CHR ''Z''"
    | "c = CHR ''_''"
    unfolding validNameFirstChar_def by blast
  then show ?thesis
  proof cases
    case 1
    then have "c \<in> set ascii_lower" by (simp add: lower_case)
    then show ?thesis by (simp add: ascii_letters_def)
  next
    case 2
    then have "c \<in> set ascii_upper" by (simp add: upper_case)
    then show ?thesis by (simp add: ascii_letters_def)
  next
    case 3
    then show ?thesis by simp
  qed
qed

lemma validNameChar_class:
  assumes "validNameChar c"
  shows "c \<in> set (ascii_letters @ ascii_digits @ ''_'')"
proof -
  from assms consider "validNameFirstChar c" | "CHR ''0'' \<le> c \<and> c \<le> CHR ''9''"
    unfolding validNameChar_def by blast
  then show ?thesis
  proof cases
    case 1
    from validNameFirstChar_class [OF this] show ?thesis by auto
  next
    case 2
    then have "c \<in> set ascii_digits" by (simp add: digit)
    then show ?thesis by simp
  qed
qed

lemma delimiter_not_name_char: "\<not> validNameChar CHR ''}''" "\<not> validNameChar CHR ''|''"
  by (simp_all add: validNameChar_def validNameFirstChar_def less_eq_char_def)


lemma name_from_takeWhile:
  "name_from pre rest = (name, n, None) \<Longrightarrow> name = pre @ takeWhile validNameChar rest"
proof (induction rest arbitrary: pre)
  case Nil
  then show ?case by simp
next
  case (Cons c r)
  show ?case
  proof (cases "c = CHR ''}'' \<or> c = CHR ''|''")
    case True
    with Cons.prems delimiter_not_name_char show ?thesis by auto
  next
    case False
    with Cons.prems have v: "validNameChar c" and "name_from (pre @ [c]) r = (name, n, None)"
      by (auto split: if_splits)
    from Cons.IH [OF this(2)] v show ?thesis by simp
  qed
qed

lemma name_view_pattern:
  assumes "name_view data = (name, n, None)"
  shows "spec_name_pattern name"
proof -
  from assms obtain c r where data: "data = c # r" by (cases data) auto
  with assms have f: "validNameFirstChar c" and nf: "name_from [c] r = (name, n, None)"
    by (auto split: if_splits)
  from name_from_takeWhile [OF nf] have name: "name = c # takeWhile validNameChar r" by simp
  have "set (takeWhile validNameChar r) \<subseteq> set (ascii_letters @ ascii_digits @ ''_'')"
  proof
    fix x assume "x \<in> set (takeWhile validNameChar r)"
    then have "validNameChar x" by (rule set_takeWhileD [THEN conjunct2])
    then show "x \<in> set (ascii_letters @ ascii_digits @ ''_'')" by (rule validNameChar_class)
  qed
  with validNameFirstChar_class [OF f] show ?thesis
    unfolding spec_name_pattern_def name by simp
qed

lemma varInfo_view_pattern:
  assumes "varInfo_view data = (name, dv, w, None)"
  shows "spec_name_pattern name"
proof -
  obtain nm n e where nv: "name_view data = (nm, n, e)" by (cases "name_view data") auto
  show ?thesis
  proof (cases e)
    case (Some c)
    with nv assms show ?thesis by (simp add: varInfo_view_def)
  next
    case None
    with nv assms have "name = nm"
      by (auto simp: varInfo_view_def split: if_splits prod.splits option.splits)
    with name_view_pattern [OF nv [unfolded None]] show ?thesis by simp
  qed
qed

lemma expand_from_lookup_cong:
  assumes eq: "\<And>name. spec_name_pattern name \<Longrightarrow> LookupEnv p name = LookupEnv q name"
  shows "expand_from p dollar out rest = expand_from q dollar out rest"
proof (induction "length rest" arbitrary: rest out dollar rule: less_induct)
  case less
  show ?case
  proof (cases rest)
    case Nil
    then show ?thesis by simp
  next
    case (Cons c r)
    have step: "\<And>d b. expand_from p d b r = expand_from q d b r"
      by (rule less.hyps) (simp add: Cons)
    show ?thesis
    proof (cases "c = CHR ''{'' \<and> dollar")
      case False
      with step show ?thesis by (auto simp: Cons)
    next
      case True
      obtain name dv w e where vi: "varInfo_view r = (name, dv, w, e)"
        by (cases "varInfo_view r") auto
      show ?thesis
      proof (cases e)
        case (Some ce)
        with True vi show ?thesis by (simp add: Cons)
      next
        case None
        from varInfo_view_pattern [OF vi [unfolded None]]
        have pq: "LookupEnv p name = LookupEnv q name" by (rule eq)
        have "\<And>b. expand_from p False b (drop (nat w) r) = expand_from q False b (drop (nat w) r)"
          by (rule less.hyps) (simp add: Cons)
        with True vi None pq show ?thesis by (simp add: Cons split: option.splits)
      qed
    qed
  qed
qed

section \<open>Scanning a template in two parts\<close>

lemma name_from_extend:
  "name_from pre rest = (name, n, None) \<Longrightarrow> name_from pre (rest @ t) = (name, n, None)"
proof (induction rest arbitrary: pre)
  case Nil
  then show ?case by simp
next
  case (Cons c r)
  show ?case
  proof (cases "c = CHR ''}'' \<or> c = CHR ''|''")
    case True
    with Cons.prems show ?thesis by auto
  next
    case False
    with Cons.prems have v: "validNameChar c" and "name_from (pre @ [c]) r = (name, n, None)"
      by (auto split: if_splits)
    from Cons.IH [OF this(2)] v False show ?thesis by simp
  qed
qed

lemma name_view_extend:
  "name_view data = (name, n, None) \<Longrightarrow> name_view (data @ t) = (name, n, None)"
  by (cases data) (auto split: if_splits dest: name_from_extend)

lemma iter_from_extend:
  "finish_default (iter_from n buf escaped rest) = (v, m, None) \<Longrightarrow>
     finish_default (iter_from n buf escaped (rest @ t)) = (v, m, None)"
proof (induction rest arbitrary: n buf escaped)
  case Nil
  then show ?case by (simp add: finish_default_def)
next
  case (Cons c r)
  show ?case
  proof (cases "c = backslash")
    case True
    with Cons.prems
    have "finish_default (iter_from (n + 1) (if escaped then buf @ [c] else buf) (\<not> escaped) r) = (v, m, None)"
      by (cases escaped) simp_all
    from Cons.IH [OF this] True show ?thesis by (cases escaped) simp_all
  next
    case False
    show ?thesis
    proof (cases "(c = CHR ''}'' \<and> \<not> escaped) \<or> (escaped \<and> c \<noteq> CHR ''}'')")
      case True
      with False Cons.prems show ?thesis by (auto simp: finish_default_def split: if_splits)
    next
      case nb: False
      with False Cons.prems
      have "finish_default (iter_from (n + 1) (buf @ [c]) False r) = (v, m, None)"
        by (simp split: if_splits)
      from Cons.IH [OF this] False nb show ?thesis by auto
    qed
  qed
qed

lemma default_view_extend:
  "default_view data = (v, m, None) \<Longrightarrow> default_view (data @ t) = (v, m, None)"
  unfolding default_view_def by (rule iter_from_extend)

lemma varInfo_view_extend:
  assumes "varInfo_view r = (name, dv, w, None)"
  shows "varInfo_view (r @ t) = (name, dv, w, None)"
proof -
  obtain nm n e where nv: "name_view r = (nm, n, e)" by (cases "name_view r") auto
  from assms nv have e: "e = None" by (cases e) (simp_all add: varInfo_view_def)
  note ok = name_view_ok [OF nv [unfolded e]]
  from name_view_extend [OF nv [unfolded e]] have nv': "name_view (r @ t) = (nm, n, None)" .
  from ok have "nat (n - 1) < length r" by linarith
  then have ix: "(r @ t) ! nat (n - 1) = r ! nat (n - 1)" by (simp add: nth_append)
  from ok have dr: "drop (nat n) (r @ t) = drop (nat n) r @ t" by simp
  show ?thesis
  proof (cases "r ! nat (n - 1) = CHR ''}''")
    case True
    with assms nv e nv' ix show ?thesis by (simp add: varInfo_view_def)
  next
    case False
    obtain v m e' where d: "default_view (drop (nat n) r) = (v, m, e')"
      by (cases "default_view (drop (nat n) r)") auto
    from assms nv e False d have e': "e' = None" by (cases e') (simp_all add: varInfo_view_def)
    from default_view_extend [OF d [unfolded e']]
    have "default_view (drop (nat n) r @ t) = (v, m, None)" .
    with assms nv e nv' ix dr False d e' show ?thesis by (simp add: varInfo_view_def)
  qed
qed

lemma expand_from_append:
  "expand_from p dollar out pre = Some (Inr (dollar', out')) \<Longrightarrow>
     expand_from p dollar out (pre @ post) = expand_from p dollar' out' post"
proof (induction "length pre" arbitrary: pre out dollar rule: less_induct)
  case less
  show ?case
  proof (cases pre)
    case Nil
    with less.prems show ?thesis by simp
  next
    case (Cons c r)
    have step: "\<And>d b. expand_from p d b r = Some (Inr (dollar', out')) \<Longrightarrow>
        expand_from p d b (r @ post) = expand_from p dollar' out' post"
      by (rule less.hyps) (simp_all add: Cons)
    show ?thesis
    proof (cases "c = CHR ''{'' \<and> dollar")
      case False
      with less.prems step show ?thesis by (auto simp: Cons split: if_splits)
    next
      case True
      obtain name dv w e where vi: "varInfo_view r = (name, dv, w, e)"
        by (cases "varInfo_view r") auto
      from less.prems True vi have e: "e = None" by (cases e) (simp_all add: Cons)
      note wb = varInfo_view_bounds [OF vi]
      from wb have dr: "drop (nat w) (r @ post) = drop (nat w) r @ post" by simp
      from less.prems True vi e obtain val ok where lk: "LookupEnv p name = Some (val, ok)"
        by (cases "LookupEnv p name") (auto simp: Cons)
      define b where "b = go_append (Slice (butlast (contents out))) (if ok then val else dv)"
      from less.prems True vi e lk
      have "expand_from p False b (drop (nat w) r) = Some (Inr (dollar', out'))"
        by (simp add: Cons b_def)
      then have "expand_from p False b (drop (nat w) r @ post) = expand_from p dollar' out' post"
        by (rule less.hyps [rotated]) (simp add: Cons)
      with True vi e lk varInfo_view_extend [OF vi [unfolded e], of post] dr show ?thesis
        by (simp add: Cons b_def)
    qed
  qed
qed

lemma Expand_loop_exit_index:
  "Expand_loop tmpl p i j dollar buf = Some (Inr (i', d', b')) \<Longrightarrow>
     0 \<le> i \<Longrightarrow> i \<le> int (length tmpl) \<Longrightarrow> 0 \<le> j \<Longrightarrow>
     0 \<le> i' \<and> i' \<le> int (length tmpl)"
proof (induction tmpl p i j dollar buf rule: Expand_loop.induct)
  case (1 tmpl lookupEnv i j dollar buf)
  show ?case
  proof (cases "j < int (length tmpl)")
    case False
    with "1.prems" show ?thesis by (subst (asm) Expand_loop.simps) simp
  next
    case True
    with "1.prems"(4) obtain c where c: "go_index tmpl j = Some c" by (auto simp: go_index_def)
    show ?thesis
    proof (cases "c = CHR ''$''")
      case d: True
      show ?thesis
      proof (cases dollar)
        case False
        with "1.prems" True c d have "Expand_loop tmpl lookupEnv i (j + 1) True buf = Some (Inr (i', d', b'))"
          by (subst (asm) Expand_loop.simps) simp
        from "1.IH"(1) [OF True c d False this] "1.prems" show ?thesis by simp
      next
        case dl: True
        with "1.prems" True c d obtain lit where lit: "go_slice tmpl i j = Some lit"
          and "Expand_loop tmpl lookupEnv (j + 1) (j + 1) False (go_append buf lit) = Some (Inr (i', d', b'))"
          by (subst (asm) Expand_loop.simps) (auto split: bind_splits)
        from "1.IH"(2) [OF True c d _ lit this(2)] dl True "1.prems" show ?thesis by simp
      qed
    next
      case nd: False
      show ?thesis
      proof (cases "c = CHR ''{''")
        case False
        with "1.prems" True c nd have "Expand_loop tmpl lookupEnv i (j + 1) False buf = Some (Inr (i', d', b'))"
          by (subst (asm) Expand_loop.simps) simp
        from "1.IH"(5) [OF True c nd False this] "1.prems" show ?thesis by simp
      next
        case br: True
        show ?thesis
        proof (cases dollar)
          case False
          with "1.prems" True c nd br have "Expand_loop tmpl lookupEnv i (j + 1) dollar buf = Some (Inr (i', d', b'))"
            by (subst (asm) Expand_loop.simps) simp
          from "1.IH"(3) [OF True c nd br False this] "1.prems" show ?thesis by simp
        next
          case dl: True
          from "1.prems"(1) True c nd br dl
          obtain lit rest name dv w val ok where lit: "go_slice tmpl i (j - 1) = Some lit"
            and rest: "go_slice tmpl (j + 1) (int (length tmpl)) = Some rest"
            and vi: "varInfo rest = Some (name, dv, w, None)"
            and lk: "LookupEnv lookupEnv name = Some (val, ok)"
            and loop: "Expand_loop tmpl lookupEnv (j + w + 1) (j + w + 1) False
                       (go_append (go_append (if buf = NilSlice then Slice [] else buf) lit)
                          (if ok then val else dv)) = Some (Inr (i', d', b'))"
            by (subst (asm) Expand_loop.simps) (auto split: bind_splits option.splits)
          from rest have lr: "int (length rest) = int (length tmpl) - (j + 1)"
            by (auto simp: go_slice_def split: if_splits)
          note wb = varInfo_bounds [OF vi]
          show ?thesis
            by (rule "1.IH"(4) [OF True c nd br _ lit rest vi refl refl refl refl lk refl loop])
              (use dl wb lr "1.prems" True in simp_all)
        qed
      qed
    qed
  qed
qed

lemma clean_scan:
  assumes "Expand_loop pre p 0 0 False buf = Some (Inr (i, dollar, b))"
  shows "\<exists>out. expand_from p False buf pre = Some (Inr (dollar, out)) \<and>
           Expand pre p buf = Some (out, None)"
proof -
  from Expand_loop_from_start [of pre p buf] assms
  have fl: "Expand_flush pre (Inr (i, dollar, b)) = expand_from p False buf pre" by simp
  from Expand_loop_exit_index [OF assms] have "0 \<le> i \<and> i \<le> int (length pre)" by simp
  then obtain lit where lit: "go_slice pre i (int (length pre)) = Some lit"
    by (simp add: go_slice_def)
  with fl have "expand_from p False buf pre = Some (Inr (dollar, go_append b lit))"
    by (simp add: Expand_flush_def)
  then show ?thesis by (simp add: Expand_view expand_result_def)
qed

section \<open>References met by the scan\<close>

lemma lower_bounds: "c \<in> set ascii_lower \<Longrightarrow> CHR ''a'' \<le> c \<and> c \<le> CHR ''z''"
  by (auto simp: ascii_lower_def less_eq_char_def)

lemma upper_bounds: "c \<in> set ascii_upper \<Longrightarrow> CHR ''A'' \<le> c \<and> c \<le> CHR ''Z''"
  by (auto simp: ascii_upper_def less_eq_char_def)

lemma digit_bounds: "c \<in> set ascii_digits \<Longrightarrow> CHR ''0'' \<le> c \<and> c \<le> CHR ''9''"
  by (auto simp: ascii_digits_def less_eq_char_def)

lemma class_validNameFirstChar:
  assumes "c \<in> set (ascii_letters @ ''_'')"
  shows "validNameFirstChar c"
proof -
  from assms consider "c \<in> set ascii_lower" | "c \<in> set ascii_upper" | "c = CHR ''_''"
    by (auto simp: ascii_letters_def)
  then show ?thesis
  proof cases
    case 1
    from lower_bounds [OF this] show ?thesis by (simp add: validNameFirstChar_def)
  next
    case 2
    from upper_bounds [OF this] show ?thesis by (simp add: validNameFirstChar_def)
  next
    case 3
    then show ?thesis by (simp add: validNameFirstChar_def)
  qed
qed

lemma class_validNameChar:
  assumes "c \<in> set (ascii_letters @ ascii_digits @ ''_'')"
  shows "validNameChar c"
proof -
  from assms consider "c \<in> set (ascii_letters @ ''_'')" | "c \<in> set ascii_digits"
    by auto
  then show ?thesis
  proof cases
    case 1
    from class_validNameFirstChar [OF this] show ?thesis by (simp add: validNameChar_def)
  next
    case 2
    from digit_bounds [OF this] show ?thesis by (simp add: validNameChar_def)
  qed
qed

lemma name_from_valid:
  "\<forall>x\<in>set a. validNameChar x \<Longrightarrow> name_from pre (a @ b) = name_from (pre @ a) b"
proof (induction a arbitrary: pre)
  case Nil
  then show ?case by simp
next
  case (Cons c a)
  from Cons.prems have v: "validNameChar c" and "\<forall>x\<in>set a. validNameChar x" by simp_all
  from v delimiter_not_name_char have "c \<noteq> CHR ''}''" "c \<noteq> CHR ''|''" by auto
  with Cons.IH [OF \<open>\<forall>x\<in>set a. validNameChar x\<close>, of "pre @ [c]"] v show ?case by simp
qed

lemma name_view_pattern_intro:
  assumes "spec_name_pattern name" and "d = CHR ''}'' \<or> d = CHR ''|''"
  shows "name_view (name @ d # rest) = (name, int (length name) + 1, None)"
proof -
  from assms(1) obtain c cs where name: "name = c # cs"
    and c: "c \<in> set (ascii_letters @ ''_'')"
    and cs: "set cs \<subseteq> set (ascii_letters @ ascii_digits @ ''_'')"
    by (cases name) (simp_all add: spec_name_pattern_def)
  from class_validNameFirstChar [OF c] have f: "validNameFirstChar c" .
  then have "validNameChar c" by (simp add: validNameChar_def)
  with delimiter_not_name_char have nd: "c \<noteq> CHR ''}''" "c \<noteq> CHR ''|''" by auto
  have v: "\<forall>x\<in>set cs. validNameChar x"
  proof
    fix x assume "x \<in> set cs"
    with cs have "x \<in> set (ascii_letters @ ascii_digits @ ''_'')" by (rule subsetD)
    then show "validNameChar x" by (rule class_validNameChar)
  qed
  from name_from_valid [OF v, of "[c]" "d # rest"] assms(2)
  have "name_from [c] (cs @ d # rest) = (c # cs, int (length cs) + 2, None)"
    by (auto simp: ac_simps)
  with f nd show ?thesis by (simp add: name)
qed

lemma varInfo_view_default:
  assumes "spec_name_pattern name" and "spec_unescape raw = Some dv"
  shows "varInfo_view (name @ CHR ''|'' # raw @ CHR ''}'' # post)
           = (name, dv, int (length name) + 1 + (int (length raw) + 1), None)"
proof -
  let ?data = "name @ CHR ''|'' # raw @ CHR ''}'' # post"
  from name_view_pattern_intro [OF assms(1), of "CHR ''|''" "raw @ CHR ''}'' # post"]
  have nv: "name_view ?data = (name, int (length name) + 1, None)" by simp
  have ix: "?data ! nat (int (length name) + 1 - 1) = CHR ''|''" by simp
  have dr: "drop (nat (int (length name) + 1)) ?data = raw @ CHR ''}'' # post"
    by (simp add: nat_add_distrib)
  from nv ix dr default_view_close [OF assms(2), of post] show ?thesis
    by (simp add: varInfo_view_def)
qed

lemma expand_from_reference:
  assumes "varInfo_view rest = (name, dv, w, None)" and "LookupEnv p name = Some (val, ok)"
  shows "expand_from p False out (''${'' @ rest)
           = expand_from p False
               (go_append (Slice (contents out)) (if ok then val else dv))
               (drop (nat w) rest)"
  using assms by simp

lemma expand_from_bad_reference:
  assumes "varInfo_view rest = (name, dv, w, Some c)"
  shows "expand_from p False out (''${'' @ rest)
           = Some (Inl \<lparr>position = w + 2, value = take (nat (w + 6)) (''${'' @ rest), err = c\<rparr>)"
  using assms by simp

lemma take_min_length: "take (nat (min (int (length xs)) k)) xs = take (nat k) xs"
  by (cases "k \<le> int (length xs)") (simp_all add: min_def)

lemma go_slice_error_value:
  assumes "0 \<le> w"
  shows "go_slice (pre @ ''${'' @ rest) (int (length pre) + 1 - 1)
           (min (int (length (pre @ ''${'' @ rest))) (int (length pre) + 1 + w + 5))
         = Some (take (nat (w + 6)) (''${'' @ rest))"
proof -
  have m: "min (int (length (pre @ ''${'' @ rest))) (int (length pre) + 1 + w + 5) - int (length pre)
        = min (int (length (''${'' @ rest))) (w + 6)"
    by (simp add: min_def)
  from assms have "int (length pre) \<le> min (int (length (pre @ ''${'' @ rest))) (int (length pre) + 1 + w + 5)"
    by (simp add: min_def)
  then show ?thesis
    unfolding go_slice_def using m take_min_length [of "''${'' @ rest" "w + 6"]
    by simp
qed


section \<open>Claims\<close>

text \<open>
  C1: \<^verbatim>\<open>Expand("a$$b", p, nil)\<close> returns \<open>a$b\<close> for every provider. In general, a pair
  \<open>$$\<close> that the scan reaches with no \<open>$\<close> pending (the text \<open>pre\<close> before it is
  scanned without error and the loop leaves it with \<^verbatim>\<open>dollar\<close> false, so the pair is
  neither inside a reference nor the tail of an earlier pair) produces exactly one
  \<open>$\<close>: the result for \<open>pre $$ post\<close> is the result for \<open>pre\<close>, then one \<open>$\<close>, then the
  expansion of \<open>post\<close> appended to it.
\<close>

theorem double_dollar_collapses:
  "(\<forall>p. Expand ''a$$b'' p NilSlice = Some (Slice ''a$b'', None)) \<and>
   (\<forall>pre post p buf i b out.
      Expand_loop pre p 0 0 False buf = Some (Inr (i, False, b)) \<longrightarrow>
      Expand pre p buf = Some (out, None) \<longrightarrow>
      Expand (pre @ ''$$'' @ post) p buf = Expand post p (go_append out ''$''))"
proof (intro conjI allI impI)
  fix p :: Environment
  show "Expand ''a$$b'' p NilSlice = Some (Slice ''a$b'', None)"
    by (simp add: Expand_view expand_result_def)
next
  fix pre post :: string and p :: Environment and buf b out :: slice and i :: int
  assume loop: "Expand_loop pre p 0 0 False buf = Some (Inr (i, False, b))"
    and out: "Expand pre p buf = Some (out, None)"
  from clean_scan [OF loop] out have "expand_from p False buf pre = Some (Inr (False, out))" by auto
  from expand_from_append [OF this, of "''$$'' @ post"]
  have "expand_from p False buf (pre @ ''$$'' @ post) = expand_from p False (go_append out ''$'') post"
    by simp
  then show "Expand (pre @ ''$$'' @ post) p buf = Expand post p (go_append out ''$'')"
    by (simp add: Expand_view)
qed

theorem double_dollar_collapses_witness:
  "Expand_loop ''x${a}$$'' (Provider (\<lambda>k. Some (''v'', True))) 0 0 False NilSlice = Some (Inr (7, False, Slice ''xv$'')) \<and>
   Expand ''x${a}$$'' (Provider (\<lambda>k. Some (''v'', True))) NilSlice = Some (Slice ''xv$'', None) \<and>
   Expand (''x${a}$$'' @ ''$$'' @ ''{b}'') (Provider (\<lambda>k. Some (''v'', True))) NilSlice = Some (Slice ''xv$${b}'', None)"
proof -
  have l: "Expand_loop ''x${a}$$'' (Provider (\<lambda>k. Some (''v'', True))) 0 0 False NilSlice = Some (Inr (7, False, Slice ''xv$''))"
    by code_simp
  have e: "Expand ''x${a}$$'' (Provider (\<lambda>k. Some (''v'', True))) NilSlice = Some (Slice ''xv$'', None)"
    by code_simp
  have f: "Expand ''{b}'' (Provider (\<lambda>k. Some (''v'', True))) (go_append (Slice ''xv$'') ''$'') = Some (Slice ''xv$${b}'', None)"
    by code_simp
  note g = double_dollar_collapses [THEN conjunct2, rule_format, OF l e, of "''{b}''"]
  from l e f g show ?thesis by simp
qed

text \<open>
  C2: when the provider does not resolve the name of a reference \<open>${name|default}\<close>
  (its lookup returns with the found flag false), \<^verbatim>\<open>Expand\<close> appends the un-escaped default value. Only the first \<open>|\<close> separates the
  name from the default: with \<open>fox_color\<close> unresolved \<open>${fox_color|brown}\<close> gives
  \<open>brown\<close>, and with \<open>hello\<close> unresolved \<open>${hello|world|foo}\<close> gives \<open>world|foo\<close>. In
  general, after any text \<open>pre\<close> scanned without error and with no \<open>$\<close> pending, a
  reference with a name of the pattern and a default text \<open>raw\<close> of the escape grammar
  (which may contain \<open>|\<close>) adds the value \<open>raw\<close> denotes to the output for \<open>pre\<close>, and
  the scan continues behind the closing \<open>}\<close>.
\<close>

theorem default_on_miss:
  "(\<forall>p val. LookupEnv p ''fox_color'' = Some (val, False) \<longrightarrow>
      Expand ''${fox_color|brown}'' p NilSlice = Some (Slice ''brown'', None)) \<and>
   (\<forall>p val. LookupEnv p ''hello'' = Some (val, False) \<longrightarrow>
      Expand ''${hello|world|foo}'' p NilSlice = Some (Slice ''world|foo'', None)) \<and>
   (\<forall>pre name raw dv post p buf i b out val.
      Expand_loop pre p 0 0 False buf = Some (Inr (i, False, b)) \<longrightarrow>
      Expand pre p buf = Some (out, None) \<longrightarrow>
      spec_name_pattern name \<longrightarrow> spec_unescape raw = Some dv \<longrightarrow>
      LookupEnv p name = Some (val, False) \<longrightarrow>
      Expand (pre @ ''${'' @ name @ ''|'' @ raw @ ''}'' @ post) p buf
        = Expand post p (go_append (Slice (contents out)) dv))"
proof (intro conjI allI impI)
  fix p :: Environment and val :: string
  assume "LookupEnv p ''fox_color'' = Some (val, False)"
  then show "Expand ''${fox_color|brown}'' p NilSlice = Some (Slice ''brown'', None)"
    by (simp add: Expand_view expand_result_def varInfo_view_def default_view_def finish_default_def
        validNameFirstChar_def validNameChar_def less_eq_char_def)
next
  fix p :: Environment and val :: string
  assume "LookupEnv p ''hello'' = Some (val, False)"
  then show "Expand ''${hello|world|foo}'' p NilSlice = Some (Slice ''world|foo'', None)"
    by (simp add: Expand_view expand_result_def varInfo_view_def default_view_def finish_default_def
        validNameFirstChar_def validNameChar_def less_eq_char_def)
next
  fix pre name raw dv post val :: string and p :: Environment and buf b out :: slice and i :: int
  assume loop: "Expand_loop pre p 0 0 False buf = Some (Inr (i, False, b))"
    and out: "Expand pre p buf = Some (out, None)"
    and name: "spec_name_pattern name" and raw: "spec_unescape raw = Some dv"
    and miss: "LookupEnv p name = Some (val, False)"
  let ?ref = "name @ CHR ''|'' # raw @ CHR ''}'' # post"
  from clean_scan [OF loop] out have pre: "expand_from p False buf pre = Some (Inr (False, out))"
    by auto
  note vi = varInfo_view_default [OF name raw, of post]
  have dr: "drop (nat (int (length name) + 1 + (int (length raw) + 1))) ?ref = post"
    by (simp add: nat_add_distrib)
  from expand_from_append [OF pre, of "''${'' @ ?ref"]
  have "expand_from p False buf (pre @ ''${'' @ ?ref) = expand_from p False out (''${'' @ ?ref)" .
  also from expand_from_reference [OF vi miss, of out] dr
  have "expand_from p False out (''${'' @ ?ref)
          = expand_from p False (go_append (Slice (contents out)) dv) post"
    by (simp only: if_False)
  finally show "Expand (pre @ ''${'' @ name @ ''|'' @ raw @ ''}'' @ post) p buf
        = Expand post p (go_append (Slice (contents out)) dv)"
    by (simp add: Expand_view)
qed


theorem default_on_miss_witness:
  "Expand_loop ''x$$'' (Provider (\<lambda>k. Some ([], False))) 0 0 False NilSlice = Some (Inr (3, False, Slice ''x$'')) \<and>
   Expand ''x$$'' (Provider (\<lambda>k. Some ([], False))) NilSlice = Some (Slice ''x$'', None) \<and>
   spec_name_pattern ''_v1'' \<and>
   spec_unescape [CHR ''a'', backslash, CHR ''}'', CHR ''|''] = Some ''a}|'' \<and>
   LookupEnv (Provider (\<lambda>k. Some ([], False))) ''_v1'' = Some ([], False) \<and>
   Expand (''x$$'' @ ''${'' @ ''_v1'' @ ''|'' @ [CHR ''a'', backslash, CHR ''}'', CHR ''|''] @ ''}'' @ ''!'')
     (Provider (\<lambda>k. Some ([], False))) NilSlice = Some (Slice ''x$a}|!'', None)"
proof -
  have l: "Expand_loop ''x$$'' (Provider (\<lambda>k. Some ([], False))) 0 0 False NilSlice = Some (Inr (3, False, Slice ''x$''))"
    by code_simp
  have e: "Expand ''x$$'' (Provider (\<lambda>k. Some ([], False))) NilSlice = Some (Slice ''x$'', None)"
    by code_simp
  have n: "spec_name_pattern ''_v1''"
    by (simp add: spec_name_pattern_def ascii_letters_def ascii_digits_def ascii_lower_def ascii_upper_def)
  have u: "spec_unescape [CHR ''a'', backslash, CHR ''}'', CHR ''|''] = Some ''a}|''" by simp
  have m: "LookupEnv (Provider (\<lambda>k. Some ([], False))) ''_v1'' = Some ([], False)" by simp
  have f: "Expand ''!'' (Provider (\<lambda>k. Some ([], False))) (go_append (Slice (contents (Slice ''x$''))) ''a}|'')
             = Some (Slice ''x$a}|!'', None)"
    by code_simp
  note g = default_on_miss [THEN conjunct2, THEN conjunct2, rule_format, OF l e n u m, of "''!''"]
  from l e n u m f g show ?thesis by simp
qed

text \<open>
  C3: \<^verbatim>\<open>readDefaultValue\<close> on the 7 bytes \<open>a s \ } } f }\<close> returns the value \<open>as}\<close> and
  the length 5, and on the 9 bytes \<open>a s \ \ \ } } f }\<close> the value \<open>as\}\<close> and the length
  7. In general, for every text \<open>raw\<close> of the escape grammar followed by an unescaped
  \<open>}\<close>, it returns the value \<open>raw\<close> denotes (an escaped \<open>}\<close> as a literal \<open>}\<close> that does
  not end the value, an escaped backslash as a literal backslash) and the length up
  to and including that \<open>}\<close>.
\<close>

theorem readDefaultValue_unescapes:
  "readDefaultValue (''as'' @ [backslash] @ ''}}f}'') = Some (''as}'', 5, None) \<and>
   readDefaultValue (''as'' @ [backslash, backslash, backslash] @ ''}}f}'')
     = Some (''as'' @ [backslash] @ ''}'', 7, None) \<and>
   (\<forall>raw d rest. spec_unescape raw = Some d \<longrightarrow>
      readDefaultValue (raw @ CHR ''}'' # rest) = Some (d, int (length raw) + 1, None))"
proof (intro conjI allI impI)
  show "readDefaultValue (''as'' @ [backslash] @ ''}}f}'') = Some (''as}'', 5, None)"
    by code_simp
  show "readDefaultValue (''as'' @ [backslash, backslash, backslash] @ ''}}f}'')
     = Some (''as'' @ [backslash] @ ''}'', 7, None)"
    by code_simp
next
  fix raw d rest
  assume "spec_unescape raw = Some d"
  then show "readDefaultValue (raw @ CHR ''}'' # rest) = Some (d, int (length raw) + 1, None)"
    by (simp add: readDefaultValue_view default_view_close)
qed

theorem readDefaultValue_unescapes_witness:
  "spec_unescape ([CHR ''{'', backslash, CHR ''}'', backslash, backslash, CHR ''|'']) = Some ([CHR ''{'', CHR ''}'', backslash, CHR ''|'']) \<and>
   readDefaultValue ([CHR ''{'', backslash, CHR ''}'', backslash, backslash, CHR ''|''] @ CHR ''}'' # ''x}'')
     = Some ([CHR ''{'', CHR ''}'', backslash, CHR ''|''], 7, None)"
proof -
  have u: "spec_unescape ([CHR ''{'', backslash, CHR ''}'', backslash, backslash, CHR ''|'']) = Some ([CHR ''{'', CHR ''}'', backslash, CHR ''|''])"
    by simp
  note g = readDefaultValue_unescapes [THEN conjunct2, THEN conjunct2, rule_format, OF u, of "''x}''"]
  from u g show ?thesis by simp
qed

text \<open>
  C4: \<^verbatim>\<open>Expand("${asdf", p, nil)\<close> fails with cause unterminated, position 6 and value
  \<open>${asdf\<close>. In general, when the parse of a reference fails (\<^verbatim>\<open>varInfo\<close> on the text
  behind \<open>${\<close> returns an error with width \<open>w\<close>; for a failure inside the default value
  this width is the length of the name part plus the width \<^verbatim>\<open>readDefaultValue\<close>
  reports), the syntax error has position \<open>w + 2\<close> and as its value the template from
  the \<open>$\<close> of the reference (index \<open>j - 1\<close>, \<open>j\<close> the index of the \<open>{\<close>) up to
  \<open>min(len(tmpl), j + w + 5)\<close>.
\<close>

theorem syntax_error_position_and_value:
  "(\<forall>p. Expand ''${asdf'' p NilSlice
      = Some (NilSlice, Some \<lparr>position = 6, value = ''${asdf'', err = errUnterminated\<rparr>)) \<and>
   (\<forall>pre rest p buf i b name dv w c j.
      Expand_loop pre p 0 0 False buf = Some (Inr (i, False, b)) \<longrightarrow>
      varInfo rest = Some (name, dv, w, Some c) \<longrightarrow>
      j = int (length pre) + 1 \<longrightarrow>
      (\<exists>v. go_slice (pre @ ''${'' @ rest) (j - 1)
               (min (int (length (pre @ ''${'' @ rest))) (j + w + 5)) = Some v \<and>
           Expand (pre @ ''${'' @ rest) p buf
             = Some (NilSlice, Some \<lparr>position = w + 2, value = v, err = c\<rparr>)))"
proof (intro conjI allI impI)
  fix p :: Environment
  show "Expand ''${asdf'' p NilSlice
      = Some (NilSlice, Some \<lparr>position = 6, value = ''${asdf'', err = errUnterminated\<rparr>)"
    by (simp add: Expand_view expand_result_def varInfo_view_def
        validNameFirstChar_def validNameChar_def less_eq_char_def)
next
  fix pre rest name dv :: string and p :: Environment and buf b :: slice and i w j :: int and c :: cause
  assume loop: "Expand_loop pre p 0 0 False buf = Some (Inr (i, False, b))"
    and vi: "varInfo rest = Some (name, dv, w, Some c)"
    and j: "j = int (length pre) + 1"
  from vi have vv: "varInfo_view rest = (name, dv, w, Some c)" by (simp add: varInfo_view)
  from varInfo_view_bounds(1) [OF vv] have w: "0 \<le> w" .
  from clean_scan [OF loop] obtain out where pre: "expand_from p False buf pre = Some (Inr (False, out))"
    by auto
  from expand_from_append [OF pre, of "''${'' @ rest"] expand_from_bad_reference [OF vv, of p out]
  have "expand_from p False buf (pre @ ''${'' @ rest)
          = Some (Inl \<lparr>position = w + 2, value = take (nat (w + 6)) (''${'' @ rest), err = c\<rparr>)"
    by simp
  then have "Expand (pre @ ''${'' @ rest) p buf
             = Some (NilSlice, Some \<lparr>position = w + 2, value = take (nat (w + 6)) (''${'' @ rest), err = c\<rparr>)"
    by (simp add: Expand_view expand_result_def)
  with go_slice_error_value [OF w, of pre rest]
  show "\<exists>v. go_slice (pre @ ''${'' @ rest) (j - 1)
               (min (int (length (pre @ ''${'' @ rest))) (j + w + 5)) = Some v \<and>
           Expand (pre @ ''${'' @ rest) p buf
             = Some (NilSlice, Some \<lparr>position = w + 2, value = v, err = c\<rparr>)"
    unfolding j by blast
qed

theorem syntax_error_position_and_value_witness:
  "Expand_loop ''ab$$'' (Provider (\<lambda>k. Some ([], False))) 0 0 False NilSlice = Some (Inr (4, False, Slice ''ab$'')) \<and>
   varInfo ''x|y*z and more'' = Some ([], [], 14, Some errUnterminated) \<and>
   go_slice (''ab$$'' @ ''${'' @ ''x|y*z and more'') 4 20 = Some ''${x|y*z and more'' \<and>
   Expand (''ab$$'' @ ''${'' @ ''x|y*z and more'') (Provider (\<lambda>k. Some ([], False))) NilSlice
     = Some (NilSlice, Some \<lparr>position = 16, value = ''${x|y*z and more'', err = errUnterminated\<rparr>)"
proof -
  have l: "Expand_loop ''ab$$'' (Provider (\<lambda>k. Some ([], False))) 0 0 False NilSlice = Some (Inr (4, False, Slice ''ab$''))"
    by code_simp
  have v: "varInfo ''x|y*z and more'' = Some ([], [], 14, Some errUnterminated)" by code_simp
  have s: "go_slice (''ab$$'' @ ''${'' @ ''x|y*z and more'') 4 20 = Some ''${x|y*z and more''"
    by (simp add: go_slice_def)
  from syntax_error_position_and_value [THEN conjunct2, rule_format, OF l v refl]
  obtain x where "go_slice (''ab$$'' @ ''${'' @ ''x|y*z and more'') (int (length ''ab$$'') + 1 - 1)
               (min (int (length (''ab$$'' @ ''${'' @ ''x|y*z and more''))) (int (length ''ab$$'') + 1 + 14 + 5)) = Some x"
    and "Expand (''ab$$'' @ ''${'' @ ''x|y*z and more'') (Provider (\<lambda>k. Some ([], False))) NilSlice
             = Some (NilSlice, Some \<lparr>position = 14 + 2, value = x, err = errUnterminated\<rparr>)"
    by blast
  with l v s show ?thesis by simp
qed

text \<open>
  C5: whenever \<^verbatim>\<open>Expand\<close> returns a syntax error, the buffer it returns is the nil
  slice, whatever buffer was supplied: no partial output comes back.
\<close>

theorem Expand_error_returns_nil:
  "Expand tmpl lookupEnv buf = Some (out, Some e) \<Longrightarrow> out = NilSlice"
proof -
  assume "Expand tmpl lookupEnv buf = Some (out, Some e)"
  then obtain r where "expand_result r = (out, Some e)" by (auto simp: Expand_view)
  then show "out = NilSlice" by (cases r) (auto simp: expand_result_def)
qed

theorem Expand_error_returns_nil_witness:
  "Expand ''ab${'' (Provider (\<lambda>k. Some ([], False))) (Slice ''xy'')
     = Some (NilSlice, Some \<lparr>position = 2, value = ''${'', err = errUnterminated\<rparr>)"
proof -
  have e: "Expand ''ab${'' (Provider (\<lambda>k. Some ([], False))) (Slice ''xy'')
     = Some (fst (the (Expand ''ab${'' (Provider (\<lambda>k. Some ([], False))) (Slice ''xy''))),
             Some \<lparr>position = 2, value = ''${'', err = errUnterminated\<rparr>)"
    by code_simp
  from Expand_error_returns_nil [OF e] e show ?thesis by simp
qed

text \<open>
  C6: \<^verbatim>\<open>readDefaultValue\<close> on \<open>w\orld}\<close> fails with the invalid-escape error and the
  length 2. In general, when an unconsumed backslash inside a default value is
  followed by a character that is neither a backslash nor \<open>}\<close>, it fails with the
  invalid-escape error, and the length it reports is the offset of that character.
\<close>

theorem readDefaultValue_invalid_escape:
  "readDefaultValue (''w'' @ [backslash] @ ''orld}'') = Some ([], 2, Some errInvalidEscape) \<and>
   (\<forall>raw d c rest. spec_unescape raw = Some d \<longrightarrow> c \<noteq> backslash \<longrightarrow> c \<noteq> CHR ''}'' \<longrightarrow>
      readDefaultValue (raw @ backslash # c # rest)
        = Some ([], int (length raw) + 1, Some errInvalidEscape))"
proof (intro conjI allI impI)
  show "readDefaultValue (''w'' @ [backslash] @ ''orld}'') = Some ([], 2, Some errInvalidEscape)"
    by code_simp
next
  fix raw d c rest
  assume "spec_unescape raw = Some d" "c \<noteq> backslash" "c \<noteq> CHR ''}''"
  then show "readDefaultValue (raw @ backslash # c # rest)
        = Some ([], int (length raw) + 1, Some errInvalidEscape)"
    by (simp add: readDefaultValue_view default_view_invalid_escape)
qed

theorem readDefaultValue_invalid_escape_witness:
  "spec_unescape ([CHR ''a'', backslash, CHR ''}'']) = Some ''a}'' \<and> CHR ''n'' \<noteq> backslash \<and> CHR ''n'' \<noteq> CHR ''}'' \<and>
   readDefaultValue ([CHR ''a'', backslash, CHR ''}''] @ backslash # CHR ''n'' # ''}'')
     = Some ([], 4, Some errInvalidEscape)"
proof -
  have u: "spec_unescape ([CHR ''a'', backslash, CHR ''}'']) = Some ''a}''" by simp
  have n: "CHR ''n'' \<noteq> backslash" "CHR ''n'' \<noteq> CHR ''}''" by simp_all
  note g = readDefaultValue_invalid_escape [THEN conjunct2, rule_format, OF u n, of "''}''"]
  from u n g show ?thesis by simp
qed

text \<open>
  C7: every name that \<^verbatim>\<open>readVarName\<close> returns without error matches
  \<open>[a-zA-Z_][a-zA-Z0-9_]*\<close>: its first character is an ASCII letter or an underscore (a
  leading underscore is accepted, as for \<open>_x9\<close>) and every later character is an ASCII
  letter, a digit or an underscore. Hence \<^verbatim>\<open>Expand\<close> looks up only such names: two
  providers whose lookups agree on all names of the pattern (in what they return or
  in panicking) give the same result.
\<close>

theorem names_match_pattern:
  "readVarName ''_x9}'' = Some (''_x9'', 4, None) \<and>
   (\<forall>data name n. readVarName data = Some (name, n, None) \<longrightarrow> spec_name_pattern name) \<and>
   (\<forall>tmpl p q buf. (\<forall>name. spec_name_pattern name \<longrightarrow> LookupEnv p name = LookupEnv q name) \<longrightarrow>
      Expand tmpl p buf = Expand tmpl q buf)"
proof (intro conjI allI impI)
  show "readVarName ''_x9}'' = Some (''_x9'', 4, None)" by code_simp
next
  fix data name n
  assume "readVarName data = Some (name, n, None)"
  then show "spec_name_pattern name" by (simp add: readVarName_view name_view_pattern)
next
  fix tmpl buf and p q :: Environment
  assume "\<forall>name. spec_name_pattern name \<longrightarrow> LookupEnv p name = LookupEnv q name"
  then have "expand_from p False buf tmpl = expand_from q False buf tmpl"
    by (intro expand_from_lookup_cong) simp
  then show "Expand tmpl p buf = Expand tmpl q buf" by (simp add: Expand_view)
qed

theorem names_match_pattern_witness:
  "readVarName ''fox_color|brown}'' = Some (''fox_color'', 10, None) \<and> spec_name_pattern ''fox_color'' \<and>
   Expand ''${a}'' (Provider (\<lambda>k. if k = ''9'' then None else Some ([], False))) NilSlice
     = Expand ''${a}'' (Provider (\<lambda>k. Some ([], False))) NilSlice"
proof -
  have r: "readVarName ''fox_color|brown}'' = Some (''fox_color'', 10, None)" by code_simp
  have h: "\<forall>name. spec_name_pattern name \<longrightarrow>
      LookupEnv (Provider (\<lambda>k. if k = ''9'' then None else Some ([], False))) name
        = LookupEnv (Provider (\<lambda>k. Some ([], False))) name"
    by (auto simp: spec_name_pattern_def ascii_letters_def ascii_lower_def ascii_upper_def)
  note a = names_match_pattern [THEN conjunct2, THEN conjunct1, rule_format, OF r]
  have b: "Expand ''${a}'' (Provider (\<lambda>k. if k = ''9'' then None else Some ([], False))) NilSlice
     = Expand ''${a}'' (Provider (\<lambda>k. Some ([], False))) NilSlice"
    by (rule names_match_pattern [THEN conjunct2, THEN conjunct2, rule_format]) (use h in simp)
  from r a b show ?thesis by blast
qed

text \<open>
  C8: on success the result of \<^verbatim>\<open>Expand\<close> is the prior contents of the supplied
  buffer followed by the expansion of the template (what \<^verbatim>\<open>Expand\<close> returns for the
  same template and provider with a nil buffer): the call only appends.
\<close>

theorem Expand_appends_to_buffer:
  assumes "Expand tmpl lookupEnv buf = Some (out, None)"
  shows "\<exists>out0. Expand tmpl lookupEnv NilSlice = Some (out0, None) \<and>
           contents out = contents buf @ contents out0"
proof -
  have sh: "shown [] (expand_from lookupEnv False buf tmpl)
          = shown (contents buf) (expand_from lookupEnv False NilSlice tmpl)"
    by (rule expand_from_buffer) simp_all
  from assms obtain r where r: "expand_from lookupEnv False buf tmpl = Some r"
    and "expand_result r = (out, None)"
    by (auto simp: Expand_view)
  then obtain d where a: "expand_from lookupEnv False buf tmpl = Some (Inr (d, out))"
    by (cases r) (auto simp: expand_result_def)
  with sh have sh': "shown (contents buf) (expand_from lookupEnv False NilSlice tmpl)
          = Some (Inr (d, contents out))"
    by (simp add: shown_def)
  then obtain r0 where r0: "expand_from lookupEnv False NilSlice tmpl = Some r0"
    by (cases "expand_from lookupEnv False NilSlice tmpl") (simp_all add: shown_def)
  with sh' obtain d0 out0 where b: "expand_from lookupEnv False NilSlice tmpl = Some (Inr (d0, out0))"
    and c: "contents out = contents buf @ contents out0"
    by (cases r0) (auto simp: shown_def)
  from b have "Expand tmpl lookupEnv NilSlice = Some (out0, None)"
    by (simp add: Expand_view expand_result_def)
  with c show ?thesis by blast
qed

theorem Expand_appends_to_buffer_witness:
  "Expand ''{${HOME}}$$'' (MapEnvironment [''HOME'' \<mapsto> ''/usr/gopher'']) (Slice ''xy'')
     = Some (Slice ''xy{/usr/gopher}$'', None) \<and>
   (\<exists>out0. Expand ''{${HOME}}$$'' (MapEnvironment [''HOME'' \<mapsto> ''/usr/gopher'']) NilSlice = Some (out0, None) \<and>
           contents (Slice ''xy{/usr/gopher}$'') = contents (Slice ''xy'') @ contents out0)"
proof -
  have e: "Expand ''{${HOME}}$$'' (MapEnvironment [''HOME'' \<mapsto> ''/usr/gopher'']) (Slice ''xy'')
     = Some (Slice ''xy{/usr/gopher}$'', None)"
    by code_simp
  from Expand_appends_to_buffer [OF e] e show ?thesis by blast
qed

text \<open>
  C9: for a template without any \<open>$\<close> character and any provider, \<^verbatim>\<open>Expand\<close>
  succeeds and returns the supplied buffer with the template appended unchanged,
  whatever other characters (\<open>{\<close>, \<open>}\<close>, backslash, \<open>|\<close>) the template contains.
\<close>

theorem Expand_literal_text:
  "CHR ''$'' \<notin> set tmpl \<Longrightarrow> Expand tmpl lookupEnv buf = Some (go_append buf tmpl, None)"
  by (simp add: Expand_view expand_from_no_dollar expand_result_def)

theorem Expand_literal_text_witness:
  "CHR ''$'' \<notin> set ''a{b}c|d'' \<and>
   Expand ''a{b}c|d'' (Provider (\<lambda>k. Some ([], False))) (Slice ''xy'') = Some (Slice ''xya{b}c|d'', None)"
  using Expand_literal_text [of "''a{b}c|d''" "Provider (\<lambda>k. Some ([], False))" "Slice ''xy''"]
  by simp




end
